theory Spec2Isabelle
  imports Main
begin

section \<open>Data model of \<^verbatim>\<open>Lib/asyncio/asyncgraph.py\<close>\<close>

text \<open>
  Execution frames, awaitables and graph nodes are Python objects compared by identity
  (\<^verbatim>\<open>is\<close>, set and dict membership by default hash). Each is modelled by its identity,
  a natural number. Graph nodes live in an arena: the reference of a node is its index.
\<close>

type_synonym frame = nat
type_synonym awaitable = nat
type_synonym node_ref = nat

text \<open>
  The three concrete subclasses of \<^verbatim>\<open>AsyncGraphNode\<close>. An error node carries its text and
  its \<^verbatim>\<open>_awaiters\<close> (default: the empty set).
\<close>

datatype node_kind =
    AsyncGraphNodeAsyncGraphAwaitable awaitable
  | AsyncGraphNodeFrame frame
  | AsyncGraphNodeError string "awaitable list"

text \<open>
  Every node owns the set \<^verbatim>\<open>awaited_by\<close>. A Python set is kept as the list of its members
  without repetition; the order of the list is the order in which the set is iterated.
\<close>

record node =
  kind :: node_kind
  awaited_by :: "node_ref list"

type_synonym heap = "node list"

text \<open>\<^verbatim>\<open>AsyncGraphNode.__init__\<close>: a fresh node has no successors.\<close>

definition new_node :: "node_kind \<Rightarrow> node" where
  "new_node k = \<lparr>kind = k, awaited_by = []\<rparr>"

text \<open>\<^verbatim>\<open>n.awaited_by.add(v)\<close> on the node stored at index \<open>n\<close>.\<close>

definition add_awaited_by :: "heap \<Rightarrow> node_ref \<Rightarrow> node_ref \<Rightarrow> heap" where
  "add_awaited_by h n v = h[n := (h ! n)\<lparr>awaited_by := List.insert v (awaited_by (h ! n))\<rparr>]"

text \<open>
  What the host runtime supplies, none of it defined in \<^verbatim>\<open>asyncgraph.py\<close>:
  \<^item> \<open>get_running_loop\<close>: the event loop running in the thread, \<open>None\<close> when there is none
    (what \<^verbatim>\<open>events.get_running_loop()\<close> does with it is in \<open>get_async_graph\<close> below);
  \<^item> \<open>current_task\<close>: the hook \<^verbatim>\<open>_current_task(loop)\<close> assigned in \<^verbatim>\<open>tasks.py\<close>;
  \<^item> \<open>awaiters\<close>: the \<^verbatim>\<open>_awaiters\<close> set of every awaitable;
  \<^item> \<open>expansion\<close>: what \<^verbatim>\<open>makeAsyncGraphNodes\<close> of an awaitable builds (see below);
  \<^item> \<open>cr_frame\<close>: \<^verbatim>\<open>get_coro().cr_frame\<close> of a task, possibly \<^verbatim>\<open>None\<close>;
  \<^item> \<open>frame_str\<close>, \<open>awaitable_str\<close>: \<^verbatim>\<open>str\<close> of a frame and of an awaitable.
\<close>

record runtime =
  get_running_loop :: "nat option"
  current_task :: "nat \<Rightarrow> awaitable option"
  awaiters :: "awaitable \<Rightarrow> awaitable list"
  expansion :: "awaitable \<Rightarrow> node_kind list \<times> node_kind"
  cr_frame :: "awaitable \<Rightarrow> frame option"
  frame_str :: "frame \<Rightarrow> string"
  awaitable_str :: "awaitable \<Rightarrow> string"

text \<open>
  \<^verbatim>\<open>get_awaiters\<close> of a node: the base class returns the empty set, an awaitable node
  delegates to its awaitable, an error node returns its own \<^verbatim>\<open>_awaiters\<close>.
\<close>

definition get_awaiters :: "runtime \<Rightarrow> node \<Rightarrow> awaitable list" where
  "get_awaiters rt n =
     (case kind n of
        AsyncGraphNodeAsyncGraphAwaitable a \<Rightarrow> awaiters rt a
      | AsyncGraphNodeFrame f \<Rightarrow> []
      | AsyncGraphNodeError t aw \<Rightarrow> aw)"

text \<open>
  Modelled from the spec: \<^verbatim>\<open>makeAsyncGraphNodes\<close> is abstract in \<^verbatim>\<open>asyncgraph.py\<close> and its
  implementations (tasks, futures) are not part of the sources at hand. The spec has it
  expand an awaitable into a sub-graph of fresh nodes, for a task a chain of frame nodes,
  and return the tail and the head of that sub-graph. Here the sub-graph is a chain: the
  nodes of kinds \<open>pre\<close>, each awaited by the next, ending in the tail node of kind \<open>t\<close>, where
  \<open>expansion rt a = (pre, t)\<close>. The head is the first node of the chain (the tail itself
  when \<open>pre\<close> is empty).
\<close>

fun chain_nodes :: "node_ref \<Rightarrow> node_kind list \<Rightarrow> node_kind \<Rightarrow> node list" where
  "chain_nodes base [] t = [new_node t]"
| "chain_nodes base (k # ks) t =
     \<lparr>kind = k, awaited_by = [Suc base]\<rparr> # chain_nodes (Suc base) ks t"

definition makeAsyncGraphNodes ::
  "runtime \<Rightarrow> awaitable \<Rightarrow> heap \<Rightarrow> node_ref \<times> node_ref \<times> heap" where
  "makeAsyncGraphNodes rt a h =
     (case expansion rt a of
        (pre, t) \<Rightarrow> (length h + length pre, length h, h @ chain_nodes (length h) pre t))"

section \<open>\<^verbatim>\<open>get_async_graph\<close>\<close>

subsection \<open>Without a current task: the plain walk of the stack\<close>

text \<open>
  The frame chain is the list of the frames met by following \<^verbatim>\<open>f_back\<close> until \<^verbatim>\<open>None\<close>.
  \<open>walk_stack\<close> is the loop \<^verbatim>\<open>while frame.f_back is not None\<close>; its first argument is what
  remains of the chain behind the current frame.
\<close>

fun walk_stack :: "frame list \<Rightarrow> node_ref \<Rightarrow> heap \<Rightarrow> heap" where
  "walk_stack [] tail_node h = h"
| "walk_stack (frame # backs) tail_node h =
     (let new = length h;
          h1 = h @ [new_node (AsyncGraphNodeFrame frame)];
          h2 = add_awaited_by h1 tail_node new
      in walk_stack backs new h2)"

subsection \<open>With a current task: the worklist over the awaiters\<close>

text \<open>
  The local state of the loop \<^verbatim>\<open>while node_q\<close>. The list \<open>node_q\<close> has the element
  that \<^verbatim>\<open>pop()\<close> takes first. The field \<open>expanded\<close> is not a variable of the code: it
  records the awaitables on which \<^verbatim>\<open>makeAsyncGraphNodes\<close> has been called, latest first.
\<close>

record drain_state =
  node_q :: "node_ref list"
  terminal_async_nodes :: "node_ref list"
  awaitable_to_head_node :: "awaitable \<rightharpoonup> node_ref"
  nodes :: heap
  expanded :: "awaitable list"

text \<open>The body of \<^verbatim>\<open>for child_awaitable in awaiters\<close>.\<close>

definition visit_awaiter :: "runtime \<Rightarrow> node_ref \<Rightarrow> awaitable \<Rightarrow> drain_state \<Rightarrow> drain_state" where
  "visit_awaiter rt node child_awaitable s =
     (case awaitable_to_head_node s child_awaitable of
        Some recorded \<Rightarrow> s\<lparr>nodes := add_awaited_by (nodes s) node recorded\<rparr>
      | None \<Rightarrow>
          (case makeAsyncGraphNodes rt child_awaitable (nodes s) of
             (child_node, child_head_node, h) \<Rightarrow>
               s\<lparr>awaitable_to_head_node := (awaitable_to_head_node s)(child_awaitable \<mapsto> child_node),
                 node_q := child_node # node_q s,
                 nodes := add_awaited_by h node child_head_node,
                 expanded := child_awaitable # expanded s\<rparr>))"

text \<open>One round of \<^verbatim>\<open>while node_q\<close>, for a non-empty worklist.\<close>

definition drain_step :: "runtime \<Rightarrow> drain_state \<Rightarrow> drain_state" where
  "drain_step rt s =
     (let node = hd (node_q s);
          aws = get_awaiters rt (nodes s ! node);
          s1 = s\<lparr>node_q := tl (node_q s)\<rparr>;
          s2 = (if aws = [] then
                  s1\<lparr>terminal_async_nodes := List.insert node (terminal_async_nodes s1)\<rparr>
                else s1)
      in fold (visit_awaiter rt node) (remdups aws) s2)"

text \<open>The loop may run forever on an unbounded awaiter graph: \<open>None\<close> is not returning.\<close>

partial_function (option) drain :: "runtime \<Rightarrow> drain_state \<Rightarrow> drain_state option" where
  "drain rt s = (if node_q s = [] then Some s else drain rt (drain_step rt s))"

subsection \<open>The top of the graph\<close>

definition exit_frame_error :: string where
  "exit_frame_error = ''Could not find exit frame for current task''"

definition entry_point_error :: string where
  "entry_point_error = ''Could not link current task to entry point.''"

text \<open>
  The loop \<^verbatim>\<open>while frame is not cur_task_exit_frame\<close>. The current frame is \<open>frame\<close> and
  \<open>backs\<close> is the chain behind it. The result is the chain left in \<^verbatim>\<open>frame\<close> (empty for
  \<^verbatim>\<open>None\<close>), \<^verbatim>\<open>head_node\<close>, \<^verbatim>\<open>tail_node\<close> and the heap.
\<close>

fun top_graft ::
  "frame \<Rightarrow> frame \<Rightarrow> frame list \<Rightarrow> node_ref option \<Rightarrow> node_ref \<Rightarrow> heap
     \<Rightarrow> frame list \<times> node_ref option \<times> node_ref \<times> heap" where
  "top_graft cur_task_exit_frame frame backs head_node tail_node h =
     (if frame = cur_task_exit_frame then (frame # backs, head_node, tail_node, h)
      else
        let new = length h;
            h1 = h @ [new_node (AsyncGraphNodeFrame frame)];
            head1 = (case head_node of None \<Rightarrow> Some new | Some x \<Rightarrow> Some x);
            h2 = (case head_node of None \<Rightarrow> h1 | Some x \<Rightarrow> add_awaited_by h1 tail_node new)
        in (case backs of
              [] \<Rightarrow>
                (let err = length h2;
                     h3 = h2 @ [new_node (AsyncGraphNodeError exit_frame_error [])];
                     h4 = add_awaited_by h3 new err
                 in ([], head1, err, h4))
            | f # fs \<Rightarrow> top_graft cur_task_exit_frame f fs head1 new h2))"

text \<open>Lines 176 to 194: the test on the type of the task's head node, the loop, the splice.\<close>

definition attach_top ::
  "node_ref \<Rightarrow> node_ref \<Rightarrow> frame \<Rightarrow> frame list \<Rightarrow> heap
     \<Rightarrow> frame list \<times> node_ref option \<times> node_ref \<times> heap" where
  "attach_top task_node task_head_node frame backs h =
     (case kind (h ! task_head_node) of
        AsyncGraphNodeFrame cur_task_exit_frame \<Rightarrow>
          (case top_graft cur_task_exit_frame frame backs None task_head_node h of
             (rest, head_node, tail_node, h1) \<Rightarrow>
               (rest, head_node, tail_node, add_awaited_by h1 tail_node task_head_node))
      | AsyncGraphNodeAsyncGraphAwaitable a \<Rightarrow> (frame # backs, Some task_head_node, task_node, h)
      | AsyncGraphNodeError t aw \<Rightarrow> (frame # backs, Some task_head_node, task_node, h))"

subsection \<open>The bottom of the graph\<close>

text \<open>
  The loop \<^verbatim>\<open>while frame\<close> looking for \<^verbatim>\<open>cur_task_entry_frame\<close>: the result is the chain
  behind the entry frame, or the empty chain when the search runs off the end.
\<close>

fun find_entry :: "frame option \<Rightarrow> frame list \<Rightarrow> frame list" where
  "find_entry cur_task_entry_frame [] = []"
| "find_entry cur_task_entry_frame (frame # backs) =
     (if Some frame = cur_task_entry_frame then backs
      else find_entry cur_task_entry_frame backs)"

text \<open>The loop \<^verbatim>\<open>while frame is not None\<close> of the last branch.\<close>

fun bottom_graft :: "frame list \<Rightarrow> node_ref option \<Rightarrow> node_ref list \<Rightarrow> heap \<Rightarrow> heap" where
  "bottom_graft [] tail_node terminals h = h"
| "bottom_graft (frame # backs) tail_node terminals h =
     (let new = length h;
          h1 = h @ [new_node (AsyncGraphNodeFrame frame)];
          h2 = (case tail_node of
                  None \<Rightarrow> fold (\<lambda>terminal_async_node g. add_awaited_by g terminal_async_node new)
                            terminals h1
                | Some t \<Rightarrow> add_awaited_by h1 t new)
      in bottom_graft backs (Some new) terminals h2)"

definition attach_bottom ::
  "runtime \<Rightarrow> awaitable \<Rightarrow> frame list \<Rightarrow> node_ref \<Rightarrow> node_ref list \<Rightarrow> heap \<Rightarrow> heap" where
  "attach_bottom rt cur_task rest tail_node terminals h =
     (case find_entry (cr_frame rt cur_task) rest of
        [] \<Rightarrow>
          (let new = length h;
               h1 = h @ [new_node (AsyncGraphNodeError entry_point_error [])]
           in add_awaited_by h1 tail_node new)
      | f # fs \<Rightarrow> bottom_graft (f # fs) None terminals h)"

subsection \<open>The whole function\<close>

datatype error = RuntimeError | AssertionError

text \<open>The state of the worklist when the loop is entered (lines 146 to 153).\<close>

definition drain_init :: "runtime \<Rightarrow> awaitable \<Rightarrow> drain_state" where
  "drain_init rt cur_task =
     (case makeAsyncGraphNodes rt cur_task [] of
        (task_node, task_head_node, h) \<Rightarrow>
          \<lparr>node_q = [task_node], terminal_async_nodes = [],
           awaitable_to_head_node = [cur_task \<mapsto> task_head_node],
           nodes = h, expanded = [cur_task]\<rparr>)"

definition cooperative ::
  "runtime \<Rightarrow> awaitable \<Rightarrow> frame \<Rightarrow> frame list \<Rightarrow> (error + node_ref option \<times> heap) option" where
  "cooperative rt cur_task frame backs =
     (case makeAsyncGraphNodes rt cur_task [] of
        (task_node, task_head_node, h0) \<Rightarrow>
          (case drain rt (drain_init rt cur_task) of
             None \<Rightarrow> None
           | Some s \<Rightarrow>
               if terminal_async_nodes s = [] then Some (Inl AssertionError)
               else
                 (case attach_top task_node task_head_node frame backs (nodes s) of
                    (rest, head_node, tail_node, h1) \<Rightarrow>
                      Some (Inr (head_node,
                        attach_bottom rt cur_task rest tail_node (terminal_async_nodes s) h1)))))"

text \<open>
  \<open>frame\<close> is \<^verbatim>\<open>sys._getframe(1)\<close>, the caller's frame, and \<open>backs\<close> the chain behind it.
  The result is \<open>None\<close> when the call does not return, \<open>Inl\<close> for a raised exception, and
  otherwise the returned \<^verbatim>\<open>head_node\<close> (which may be \<^verbatim>\<open>None\<close>) with the nodes built.

  Line 131 calls \<^verbatim>\<open>events.get_running_loop()\<close>. That function of \<^verbatim>\<open>asyncio\<close> is not in
  \<^verbatim>\<open>asyncgraph.py\<close>; it returns the running loop and raises \<^verbatim>\<open>RuntimeError\<close> when no loop
  is running (it is \<^verbatim>\<open>_get_running_loop\<close> that returns \<^verbatim>\<open>None\<close> then). So the call raises
  when there is no loop, and \<^verbatim>\<open>loop\<close> is never \<^verbatim>\<open>None\<close> at the test of line 132: of that
  test only \<^verbatim>\<open>_current_task(loop) is None\<close> can hold.
\<close>

definition get_async_graph ::
  "runtime \<Rightarrow> frame \<Rightarrow> frame list \<Rightarrow> (error + node_ref option \<times> heap) option" where
  "get_async_graph rt frame backs =
     (case get_running_loop rt of
        None \<Rightarrow> Some (Inl RuntimeError)
      | Some loop \<Rightarrow>
          (case current_task rt loop of
             None \<Rightarrow>
               Some (Inr (Some 0, walk_stack backs 0 [new_node (AsyncGraphNodeFrame frame)]))
           | Some cur_task \<Rightarrow> cooperative rt cur_task frame backs))"

section \<open>\<^verbatim>\<open>async_graph_to_dot\<close>\<close>

text \<open>\<^verbatim>\<open>str(node)\<close>: the \<^verbatim>\<open>__str__\<close> of the three node classes.\<close>

definition node_str :: "runtime \<Rightarrow> node \<Rightarrow> string" where
  "node_str rt n =
     (case kind n of
        AsyncGraphNodeAsyncGraphAwaitable a \<Rightarrow> awaitable_str rt a
      | AsyncGraphNodeFrame f \<Rightarrow> frame_str rt f
      | AsyncGraphNodeError t aw \<Rightarrow> t)"

text \<open>\<^verbatim>\<open>s.replace(c, new)\<close> for a pattern \<open>c\<close> of one character.\<close>

fun replace_char :: "char \<Rightarrow> string \<Rightarrow> string \<Rightarrow> string" where
  "replace_char c new [] = []"
| "replace_char c new (x # xs) =
     (if x = c then new @ replace_char c new xs else x # replace_char c new xs)"

text \<open>
  Line 249. The Python literal \<^verbatim>\<open>'\\n'\<close> is a backslash followed by \<^verbatim>\<open>n\<close>; the literal
  \<^verbatim>\<open>'\"'\<close> is the double quote alone, since \<^verbatim>\<open>\"\<close> is the escape sequence for it. The
  characters are written by their codes: \<open>0x0A\<close> the newline, \<open>0x22\<close> the double quote,
  \<open>0x5C\<close> the backslash.
\<close>

definition escape_label :: "string \<Rightarrow> string" where
  "escape_label s =
     replace_char (CHR 0x22) [CHR 0x22] (replace_char (CHR 0x0A) [CHR 0x5C, CHR ''n''] s)"

text \<open>\<^verbatim>\<open>str\<close> of a non-negative integer, as the f-strings format the identifiers.\<close>

fun str_nat :: "nat \<Rightarrow> string" where
  "str_nat n =
     (if n < 10 then [''0123456789'' ! n]
      else str_nat (n div 10) @ [''0123456789'' ! (n mod 10)])"

declare str_nat.simps [simp del]

text \<open>
  The two kinds of lines appended to \<^verbatim>\<open>graph\<close>, with the identifiers and the label they
  are formatted from, and their text.
\<close>

datatype dot_line = Vertex nat string | Edge nat nat

fun render :: "dot_line \<Rightarrow> string" where
  "render (Vertex i label) =
     ''  n'' @ str_nat i @ '' [label='' @ [CHR 0x22] @ label @ [CHR 0x22] @ '' shape=box];''
       @ [CHR 0x0A]"
| "render (Edge i j) = ''n'' @ str_nat i @ '' -> n'' @ str_nat j @ '';'' @ [CHR 0x0A]"

text \<open>
  The local state of the function. The list \<open>q\<close> has the element that \<^verbatim>\<open>pop()\<close> takes
  first; \<open>seen\<close> is the set as the list of its members, latest first; \<open>graph\<close> is the list
  of the lines appended after the opening line, in order.
\<close>

record dot_state =
  q :: "node_ref list"
  seen :: "node_ref list"
  next_id :: nat
  node_to_id :: "node_ref \<rightharpoonup> nat"
  graph :: "dot_line list"

text \<open>The inner function \<^verbatim>\<open>node_id\<close>, which assigns \<^verbatim>\<open>next_id + 1\<close> to a node met first.\<close>

definition node_id :: "node_ref \<Rightarrow> dot_state \<Rightarrow> nat \<times> dot_state" where
  "node_id node s =
     (case node_to_id s node of
        Some i \<Rightarrow> (i, s)
      | None \<Rightarrow>
          (next_id s + 1,
           s\<lparr>next_id := next_id s + 1, node_to_id := (node_to_id s)(node \<mapsto> next_id s + 1)\<rparr>))"

text \<open>The body of \<^verbatim>\<open>for child in node.awaited_by\<close>.\<close>

definition dot_child :: "node_ref \<Rightarrow> node_ref \<Rightarrow> dot_state \<Rightarrow> dot_state" where
  "dot_child node child s =
     (let s1 = s\<lparr>q := child # q s\<rparr> in
      case node_id node s1 of
        (i, s2) \<Rightarrow>
          (case node_id child s2 of
             (j, s3) \<Rightarrow> s3\<lparr>graph := graph s3 @ [Edge i j]\<rparr>))"

text \<open>Lines 248 to 253, for a node that is not in \<^verbatim>\<open>seen\<close>.\<close>

definition dot_visit :: "runtime \<Rightarrow> heap \<Rightarrow> node_ref \<Rightarrow> dot_state \<Rightarrow> dot_state" where
  "dot_visit rt h node s =
     (let s1 = s\<lparr>seen := node # seen s\<rparr>;
          label = escape_label (node_str rt (h ! node))
      in case node_id node s1 of
           (i, s2) \<Rightarrow>
             fold (dot_child node) (remdups (awaited_by (h ! node)))
               (s2\<lparr>graph := graph s2 @ [Vertex i label]\<rparr>))"

text \<open>One round of \<^verbatim>\<open>while q\<close>, for a non-empty worklist.\<close>

definition dot_step :: "runtime \<Rightarrow> heap \<Rightarrow> dot_state \<Rightarrow> dot_state" where
  "dot_step rt h s =
     (let node = hd (q s);
          s1 = s\<lparr>q := tl (q s)\<rparr>
      in if node \<in> set (seen s1) then s1 else dot_visit rt h node s1)"

partial_function (option) dot_loop :: "runtime \<Rightarrow> heap \<Rightarrow> dot_state \<Rightarrow> dot_state option" where
  "dot_loop rt h s = (if q s = [] then Some s else dot_loop rt h (dot_step rt h s))"

definition dot_init :: "node_ref \<Rightarrow> dot_state" where
  "dot_init head = \<lparr>q = [head], seen = [], next_id = 0, node_to_id = Map.empty, graph = []\<rparr>"

text \<open>
  The text returned for the graph \<open>h\<close> and the node \<open>head\<close>: \<open>None\<close> when the loop does not
  end.
\<close>

definition async_graph_to_dot :: "runtime \<Rightarrow> heap \<Rightarrow> node_ref \<Rightarrow> string option" where
  "async_graph_to_dot rt h head =
     (case dot_loop rt h (dot_init head) of
        None \<Rightarrow> None
      | Some s \<Rightarrow>
          Some (''digraph {'' @ [CHR 0x0A] @ concat (map render (graph s)) @ ''}'' @ [CHR 0x0A]))"

section \<open>Notions used to state the properties\<close>

text \<open>
  A linear chain of frame nodes allocated from index \<open>b\<close> on: the node of \<open>f\<close>, then the
  nodes of \<open>fs\<close>, each awaited by the next one only, the last one awaited by \<open>final\<close>.
\<close>

fun frame_chain :: "node_ref \<Rightarrow> frame \<Rightarrow> frame list \<Rightarrow> node_ref list \<Rightarrow> node list" where
  "frame_chain b f [] final = [\<lparr>kind = AsyncGraphNodeFrame f, awaited_by = final\<rparr>]"
| "frame_chain b f (g # gs) final =
     \<lparr>kind = AsyncGraphNodeFrame f, awaited_by = [Suc b]\<rparr> # frame_chain (Suc b) g gs final"

text \<open>Every reference held by the worklist state points into the heap.\<close>

definition refs_ok :: "drain_state \<Rightarrow> bool" where
  "refs_ok s \<longleftrightarrow>
     (\<forall>n \<in> set (node_q s). n < length (nodes s)) \<and>
     (\<forall>n \<in> set (terminal_async_nodes s). n < length (nodes s)) \<and>
     (\<forall>a n. awaitable_to_head_node s a = Some n \<longrightarrow> n < length (nodes s))"

text \<open>The heap \<open>h\<close> has the nodes of \<open>h0\<close>, of the same kinds, and possibly more.\<close>

definition extends :: "heap \<Rightarrow> heap \<Rightarrow> bool" where
  "extends h0 h \<longleftrightarrow> length h0 \<le> length h \<and> (\<forall>i < length h0. kind (h ! i) = kind (h0 ! i))"

text \<open>The kind of the head node that \<^verbatim>\<open>makeAsyncGraphNodes\<close> returns for an awaitable.\<close>

definition head_kind :: "runtime \<Rightarrow> awaitable \<Rightarrow> node_kind" where
  "head_kind rt a = (case fst (expansion rt a) of [] \<Rightarrow> snd (expansion rt a) | k # ks \<Rightarrow> k)"

text \<open>The edges of a graph: \<open>(u, v)\<close> when \<open>v\<close> is in the \<^verbatim>\<open>awaited_by\<close> set of \<open>u\<close>.\<close>

definition edges :: "heap \<Rightarrow> (node_ref \<times> node_ref) set" where
  "edges h = {(u, v). u < length h \<and> v \<in> set (awaited_by (h ! u))}"

text \<open>
  The awaiters that the worklist loop reads at the node it enqueues for the awaitable
  \<open>a\<close>, the tail node of its expansion. For an expansion that ends in the awaitable's own
  node these are \<open>awaiters rt a\<close>.
\<close>

definition tail_awaiters :: "runtime \<Rightarrow> awaitable \<Rightarrow> awaitable list" where
  "tail_awaiters rt a = get_awaiters rt (new_node (snd (expansion rt a)))"

text \<open>
  The measure that decreases at every round of the worklist loop, for a finite set \<open>A\<close> of
  awaitables that holds every awaitable the loop can meet.
\<close>

definition drain_measure :: "awaitable set \<Rightarrow> drain_state \<Rightarrow> nat" where
  "drain_measure A s = 2 * card (A - dom (awaitable_to_head_node s)) + length (node_q s)"

text \<open>
  The worklist state is consistent: every key of the map is in \<open>A\<close>, the awaitables
  expanded so far are the keys of the map, each expanded once, and every queued node is
  the tail node of the expansion of an awaitable of \<open>A\<close>.
\<close>

definition queue_ok :: "runtime \<Rightarrow> awaitable set \<Rightarrow> drain_state \<Rightarrow> bool" where
  "queue_ok rt A s \<longleftrightarrow>
     dom (awaitable_to_head_node s) \<subseteq> A \<and>
     distinct (expanded s) \<and> set (expanded s) = dom (awaitable_to_head_node s) \<and>
     (\<forall>n \<in> set (node_q s). n < length (nodes s) \<and>
        (\<exists>a \<in> A. kind (nodes s ! n) = snd (expansion rt a)))"

definition expanded_ok :: "drain_state \<Rightarrow> bool" where
  "expanded_ok s \<longleftrightarrow> distinct (expanded s) \<and> set (expanded s) = dom (awaitable_to_head_node s)"

text \<open>The nodes that can be reached from \<open>head\<close> along \<^verbatim>\<open>awaited_by\<close>.\<close>

definition reach :: "heap \<Rightarrow> node_ref \<Rightarrow> node_ref set" where
  "reach h head = {n. (head, n) \<in> (edges h)\<^sup>*}"

text \<open>Every reference in an \<^verbatim>\<open>awaited_by\<close> set points into the heap.\<close>

definition closed_heap :: "heap \<Rightarrow> bool" where
  "closed_heap h \<longleftrightarrow> (\<forall>n < length h. \<forall>c \<in> set (awaited_by (h ! n)). c < length h)"

text \<open>
  The lines that the serializer appends for a node \<open>n\<close>, given the identifiers \<open>m\<close>: the
  vertex line, then one edge line for each member of \<^verbatim>\<open>awaited_by\<close>.
\<close>

definition emit :: "runtime \<Rightarrow> heap \<Rightarrow> (node_ref \<rightharpoonup> nat) \<Rightarrow> node_ref \<Rightarrow> dot_line list" where
  "emit rt h m n =
     Vertex (the (m n)) (escape_label (node_str rt (h ! n)))
       # map (\<lambda>c. Edge (the (m n)) (the (m c))) (remdups (awaited_by (h ! n)))"

text \<open>The identifiers handed out are positive, at most \<^verbatim>\<open>next_id\<close>, and differ from node to node.\<close>

definition ids_ok :: "dot_state \<Rightarrow> bool" where
  "ids_ok s \<longleftrightarrow>
     (\<forall>a i. node_to_id s a = Some i \<longrightarrow> 0 < i \<and> i \<le> next_id s) \<and>
     (\<forall>a b i. node_to_id s a = Some i \<longrightarrow> node_to_id s b = Some i \<longrightarrow> a = b)"

text \<open>The invariant of the loop \<^verbatim>\<open>while q\<close> of the serializer.\<close>

definition dot_inv :: "runtime \<Rightarrow> heap \<Rightarrow> node_ref \<Rightarrow> dot_state \<Rightarrow> bool" where
  "dot_inv rt h head s \<longleftrightarrow>
     distinct (seen s) \<and>
     set (seen s) \<subseteq> reach h head \<and> set (q s) \<subseteq> reach h head \<and>
     head \<in> set (seen s) \<union> set (q s) \<and>
     (\<forall>n \<in> set (seen s). set (awaited_by (h ! n)) \<subseteq> set (seen s) \<union> set (q s)) \<and>
     ids_ok s \<and>
     (\<forall>n \<in> set (seen s). n \<in> dom (node_to_id s) \<and> set (awaited_by (h ! n)) \<subseteq> dom (node_to_id s)) \<and>
     graph s = concat (map (emit rt h (node_to_id s)) (rev (seen s)))"

text \<open>The identifier a line starts with.\<close>

fun line_src :: "dot_line \<Rightarrow> nat" where
  "line_src (Vertex i l) = i"
| "line_src (Edge i j) = i"

text \<open>
  The lines of the output format, without the newline that ends them: the declaration of
  the vertex \<open>i\<close> with its label, after the two blanks the code writes, and the edge from
  the vertex \<open>i\<close> to the vertex \<open>j\<close>.
\<close>

definition vertex_line :: "nat \<Rightarrow> string \<Rightarrow> string" where
  "vertex_line i label =
     ''  n'' @ str_nat i @ '' [label='' @ [CHR 0x22] @ label @ [CHR 0x22] @ '' shape=box];''"

definition edge_line :: "nat \<Rightarrow> nat \<Rightarrow> string" where
  "edge_line i j = ''n'' @ str_nat i @ '' -> n'' @ str_nat j @ '';''"

fun line_text :: "dot_line \<Rightarrow> string" where
  "line_text (Vertex i label) = vertex_line i label"
| "line_text (Edge i j) = edge_line i j"

text \<open>Reading a decimal numeral back, to show that \<open>str_nat\<close> loses nothing.\<close>

definition digit_value :: "char \<Rightarrow> nat" where
  "digit_value c = length (takeWhile (\<lambda>d. d \<noteq> c) ''0123456789'')"

definition nat_of_str :: "string \<Rightarrow> nat" where
  "nat_of_str s = foldl (\<lambda>a c. 10 * a + digit_value c) 0 s"

subsection \<open>Runtimes to run the functions on\<close>

text \<open>No event loop is running.\<close>

definition rt_idle :: runtime where
  "rt_idle = \<lparr>get_running_loop = None, current_task = (\<lambda>l. None),
     awaiters = (\<lambda>a. []),
     expansion = (\<lambda>a. ([], AsyncGraphNodeAsyncGraphAwaitable a)),
     cr_frame = (\<lambda>a. None),
     frame_str = (\<lambda>f. ''frame''), awaitable_str = (\<lambda>a. ''future'')\<rparr>"

text \<open>The loop 0 is running and has no current task.\<close>

definition rt_no_task :: runtime where
  "rt_no_task = rt_idle\<lparr>get_running_loop := Some 0\<rparr>"

text \<open>
  One task, number 0, is running and nothing awaits it. A task \<open>a\<close> expands to the node of
  its coroutine frame (frame \<open>a\<close>) followed by its own node.
\<close>

definition rt_task :: runtime where
  "rt_task = \<lparr>get_running_loop = Some 0, current_task = (\<lambda>l. Some 0),
     awaiters = (\<lambda>a. []),
     expansion = (\<lambda>a. ([AsyncGraphNodeFrame a], AsyncGraphNodeAsyncGraphAwaitable a)),
     cr_frame = (\<lambda>a. Some a),
     frame_str = (\<lambda>f. ''frame''), awaitable_str = (\<lambda>a. ''task'')\<rparr>"

text \<open>Task 0 is awaited by task 1, which is awaited by task 0.\<close>

definition rt_cycle :: runtime where
  "rt_cycle = rt_task\<lparr>awaiters := (\<lambda>a. if a = 0 then [1] else if a = 1 then [0] else [])\<rparr>"

text \<open>As \<open>rt_task\<close>, but the entry frame of the task is a frame that is on no stack.\<close>

definition rt_lost :: runtime where
  "rt_lost = rt_task\<lparr>cr_frame := (\<lambda>a. Some 6)\<rparr>"

text \<open>The states in which the worklist loop ends on these runtimes.\<close>

definition s_task :: drain_state where
  "s_task = \<lparr>node_q = [], terminal_async_nodes = [1], awaitable_to_head_node = [0 \<mapsto> 0],
     nodes = [\<lparr>kind = AsyncGraphNodeFrame 0, awaited_by = [1]\<rparr>,
              \<lparr>kind = AsyncGraphNodeAsyncGraphAwaitable 0, awaited_by = []\<rparr>],
     expanded = [0]\<rparr>"

definition s_cycle :: drain_state where
  "s_cycle = \<lparr>node_q = [], terminal_async_nodes = [], awaitable_to_head_node = [0 \<mapsto> 0, 1 \<mapsto> 3],
     nodes = [\<lparr>kind = AsyncGraphNodeFrame 0, awaited_by = [1]\<rparr>,
              \<lparr>kind = AsyncGraphNodeAsyncGraphAwaitable 0, awaited_by = [2]\<rparr>,
              \<lparr>kind = AsyncGraphNodeFrame 1, awaited_by = [3]\<rparr>,
              \<lparr>kind = AsyncGraphNodeAsyncGraphAwaitable 1, awaited_by = [0]\<rparr>],
     expanded = [1, 0]\<rparr>"

text \<open>The graph built on \<open>rt_lost\<close> for the stack of frames 7, 0, 8.\<close>

definition h_lost :: heap where
  "h_lost = [\<lparr>kind = AsyncGraphNodeFrame 0, awaited_by = [1]\<rparr>,
             \<lparr>kind = AsyncGraphNodeAsyncGraphAwaitable 0, awaited_by = []\<rparr>,
             \<lparr>kind = AsyncGraphNodeFrame 7, awaited_by = [3, 0]\<rparr>,
             \<lparr>kind = AsyncGraphNodeError ''Could not link current task to entry point.'' [],
              awaited_by = []\<rparr>]"

text \<open>
  Task 0 is awaited by the tasks 1 and 2, and both of them are awaited by task 3: the
  awaitable 3 is reached along two branches.
\<close>

definition rt_converge :: runtime where
  "rt_converge = rt_task\<lparr>awaiters :=
     (\<lambda>a. if a = 0 then [1, 2] else if a = 1 then [3] else if a = 2 then [3] else [])\<rparr>"

definition s_converge :: drain_state where
  "s_converge = \<lparr>node_q = [], terminal_async_nodes = [7],
     awaitable_to_head_node = [0 \<mapsto> 0, 1 \<mapsto> 3, 2 \<mapsto> 5, 3 \<mapsto> 7],
     nodes = [\<lparr>kind = AsyncGraphNodeFrame 0, awaited_by = [1]\<rparr>,
              \<lparr>kind = AsyncGraphNodeAsyncGraphAwaitable 0, awaited_by = [4, 2]\<rparr>,
              \<lparr>kind = AsyncGraphNodeFrame 1, awaited_by = [3]\<rparr>,
              \<lparr>kind = AsyncGraphNodeAsyncGraphAwaitable 1, awaited_by = [7]\<rparr>,
              \<lparr>kind = AsyncGraphNodeFrame 2, awaited_by = [5]\<rparr>,
              \<lparr>kind = AsyncGraphNodeAsyncGraphAwaitable 2, awaited_by = [6]\<rparr>,
              \<lparr>kind = AsyncGraphNodeFrame 3, awaited_by = [7]\<rparr>,
              \<lparr>kind = AsyncGraphNodeAsyncGraphAwaitable 3, awaited_by = []\<rparr>],
     expanded = [3, 2, 1, 0]\<rparr>"

text \<open>A label with a double quote and a newline in it.\<close>

definition quoted_text :: string where
  "quoted_text = [CHR ''a'', CHR 0x22, CHR ''b'', CHR 0x0A, CHR ''c'']"

text \<open>A graph with a diamond (0 to 3 through 1 and through 2) and a cycle (3 back to 0).\<close>

definition h_diamond :: heap where
  "h_diamond =
     [\<lparr>kind = AsyncGraphNodeFrame 0, awaited_by = [1, 2]\<rparr>,
      \<lparr>kind = AsyncGraphNodeAsyncGraphAwaitable 1, awaited_by = [3]\<rparr>,
      \<lparr>kind = AsyncGraphNodeAsyncGraphAwaitable 2, awaited_by = [3]\<rparr>,
      \<lparr>kind = AsyncGraphNodeError ''lost'' [], awaited_by = [0]\<rparr>]"

section \<open>The plain walk of the stack\<close>

lemma length_add_awaited_by [simp]: "length (add_awaited_by h n v) = length h"
  by (simp add: add_awaited_by_def)

lemma kind_add_awaited_by [simp]: "kind (add_awaited_by h n v ! i) = kind (h ! i)"
  by (cases "n < length h") (auto simp: add_awaited_by_def nth_list_update list_update_beyond)

lemma awaited_by_add_awaited_by:
  "i < length h \<Longrightarrow> set (awaited_by (add_awaited_by h n v ! i))
     = (if i = n then insert v (set (awaited_by (h ! i))) else set (awaited_by (h ! i)))"
  by (auto simp: add_awaited_by_def nth_list_update)

lemma add_awaited_by_append:
  "n < length h \<Longrightarrow> add_awaited_by (h @ g) n v = add_awaited_by h n v @ g"
  by (simp add: add_awaited_by_def nth_append list_update_append)

lemma add_awaited_by_mid:
  "length h = n \<Longrightarrow> add_awaited_by (h @ x # g) n v
     = h @ x\<lparr>awaited_by := List.insert v (awaited_by x)\<rparr> # g"
  by (auto simp: add_awaited_by_def)

lemma length_frame_chain [simp]: "length (frame_chain b f fs final) = Suc (length fs)"
  by (induction fs arbitrary: b f) auto

lemma nth_frame_chain:
  "i \<le> length fs \<Longrightarrow> frame_chain b f fs final ! i =
     \<lparr>kind = AsyncGraphNodeFrame ((f # fs) ! i),
      awaited_by = (if i < length fs then [Suc (b + i)] else final)\<rparr>"
proof (induction fs arbitrary: b f i)
  case Nil
  then show ?case by simp
next
  case (Cons g gs)
  then show ?case by (cases i) auto
qed

lemma walk_stack_chain:
  "walk_stack fs (length h) (h @ [new_node (AsyncGraphNodeFrame f)])
     = h @ frame_chain (length h) f fs []"
proof (induction fs arbitrary: h f)
  case Nil
  then show ?case by (simp add: new_node_def)
next
  case (Cons g gs)
  let ?h' = "h @ [\<lparr>kind = AsyncGraphNodeFrame f, awaited_by = [Suc (length h)]\<rparr>]"
  have "add_awaited_by ((h @ [new_node (AsyncGraphNodeFrame f)]) @ [new_node (AsyncGraphNodeFrame g)])
          (length h) (Suc (length h)) = ?h' @ [new_node (AsyncGraphNodeFrame g)]"
    by (simp add: add_awaited_by_mid new_node_def)
  with Cons.IH[of ?h' g] show ?case by (simp add: Let_def)
qed

text \<open>
  With a running loop that has no current task the call returns the node of the caller's
  frame (index 0) as head of a linear chain: one frame node per frame of the chain, in the
  order of the chain from the caller to the entry point, each awaited by exactly the node
  of its calling frame, the outermost one by nothing. There is no error node, and the
  result does not depend on anything the runtime says of awaitables.
\<close>

lemma no_current_task_linear_chain:
  assumes "get_running_loop rt = Some loop" and "current_task rt loop = None"
  shows "get_async_graph rt frame backs =
     Some (Inr (Some 0,
       map (\<lambda>i. \<lparr>kind = AsyncGraphNodeFrame ((frame # backs) ! i),
                 awaited_by = (if i < length backs then [Suc i] else [])\<rparr>)
           [0..<Suc (length backs)]))"
proof -
  have "walk_stack backs 0 [new_node (AsyncGraphNodeFrame frame)] = frame_chain 0 frame backs []"
    using walk_stack_chain[of backs "[]" frame] by simp
  moreover have "frame_chain 0 frame backs [] =
      map (\<lambda>i. \<lparr>kind = AsyncGraphNodeFrame ((frame # backs) ! i),
                awaited_by = (if i < length backs then [Suc i] else [])\<rparr>)
          [0..<Suc (length backs)]"
    by (rule nth_equalityI) (simp_all add: nth_frame_chain del: upt_Suc)
  ultimately show ?thesis using assms
    by (simp add: get_async_graph_def del: upt_Suc)
qed

text \<open>
  C2, on the code. The claim holds for a call made while a loop runs and no task is
  current (\<open>rt_no_task\<close>, and the lemma above). It fails for a call made while no event
  loop is running (\<open>rt_idle\<close>): \<^verbatim>\<open>events.get_running_loop()\<close> raises \<^verbatim>\<open>RuntimeError\<close> at
  line 131, before the test \<^verbatim>\<open>loop is None\<close> of line 132 that was written for this case, and
  no chain is returned.
\<close>

theorem no_running_loop_raises:
  "get_async_graph rt_idle 10 [11, 12] = Some (Inl RuntimeError) \<and>
   get_async_graph rt_no_task 10 [11, 12] =
     Some (Inr (Some 0,
       [\<lparr>kind = AsyncGraphNodeFrame 10, awaited_by = [1]\<rparr>,
        \<lparr>kind = AsyncGraphNodeFrame 11, awaited_by = [2]\<rparr>,
        \<lparr>kind = AsyncGraphNodeFrame 12, awaited_by = []\<rparr>]))"
proof -
  have "get_async_graph rt_idle 10 [11, 12] = Some (Inl RuntimeError)"
    by (simp add: get_async_graph_def rt_idle_def)
  moreover have "get_running_loop rt_no_task = Some 0" and "current_task rt_no_task 0 = None"
    by (simp_all add: rt_no_task_def rt_idle_def)
  from no_current_task_linear_chain[OF this, of 10 "[11, 12]"]
  have "get_async_graph rt_no_task 10 [11, 12] =
     Some (Inr (Some 0,
       [\<lparr>kind = AsyncGraphNodeFrame 10, awaited_by = [1]\<rparr>,
        \<lparr>kind = AsyncGraphNodeFrame 11, awaited_by = [2]\<rparr>,
        \<lparr>kind = AsyncGraphNodeFrame 12, awaited_by = []\<rparr>]))"
    by (simp add: upt_rec)
  ultimately show ?thesis by simp
qed

section \<open>The worklist loop\<close>

lemma drain_done: "node_q s = [] \<Longrightarrow> drain rt s = Some s"
  by (simp add: drain.simps)

lemma drain_more: "node_q s \<noteq> [] \<Longrightarrow> drain rt s = drain rt (drain_step rt s)"
  by (subst drain.simps) simp

lemma drain_rule:
  assumes ret: "drain rt s = Some s'" and init: "I s"
    and step: "\<And>u. I u \<Longrightarrow> node_q u \<noteq> [] \<Longrightarrow> I (drain_step rt u)"
  shows "I s' \<and> node_q s' = []"
proof -
  have "rt = rt \<longrightarrow> I s \<longrightarrow> I s' \<and> node_q s' = []"
  proof (rule drain.raw_induct
      [where P = "\<lambda>r u y. r = rt \<longrightarrow> I u \<longrightarrow> I y \<and> node_q y = []", OF _ ret])
    fix drain' r u y
    assume IH: "\<And>r u y. drain' r u = Some y \<Longrightarrow> r = rt \<longrightarrow> I u \<longrightarrow> I y \<and> node_q y = []"
      and body: "(if node_q u = [] then Some u else drain' r (drain_step r u)) = Some y"
    show "r = rt \<longrightarrow> I u \<longrightarrow> I y \<and> node_q y = []"
    proof (cases "node_q u = []")
      case True
      with body show ?thesis by simp
    next
      case False
      with body have "drain' r (drain_step r u) = Some y" by simp
      from IH[OF this]
      have "r = rt \<longrightarrow> I (drain_step r u) \<longrightarrow> I y \<and> node_q y = []" .
      with step False show ?thesis by simp
    qed
  qed
  with init show ?thesis by simp
qed

lemma length_chain_nodes [simp]: "length (chain_nodes b pre t) = Suc (length pre)"
  by (induction pre arbitrary: b) auto

lemma chain_nodes_not_Nil [simp]: "chain_nodes b pre t \<noteq> []"
  by (cases pre) auto

lemma chain_nodes_tail: "chain_nodes b pre t ! length pre = new_node t"
  by (induction pre arbitrary: b) auto

lemma makeAsyncGraphNodes_props:
  assumes "makeAsyncGraphNodes rt a h = (tn, hn, h')"
  shows "length h' = length h + Suc (length (fst (expansion rt a)))"
    and "tn = length h + length (fst (expansion rt a))" and "hn = length h"
    and "\<And>i. i < length h \<Longrightarrow> h' ! i = h ! i"
    and "h' ! tn = new_node (snd (expansion rt a))"
  using assms
  by (auto simp: makeAsyncGraphNodes_def nth_append chain_nodes_tail split: prod.splits)


lemma extends_refl [simp]: "extends h h"
  by (simp add: extends_def)

lemma extends_trans: "extends a b \<Longrightarrow> extends b c \<Longrightarrow> extends a c"
  by (auto simp: extends_def)

lemma extends_add_awaited_by [simp]: "extends h (add_awaited_by h n v)"
  by (simp add: extends_def)

lemma extends_append [simp]: "extends h (h @ g)"
  by (simp add: extends_def nth_append)

lemma extends_makeAsyncGraphNodes:
  "makeAsyncGraphNodes rt a h = (tn, hn, h') \<Longrightarrow> extends h h'"
  by (auto simp: makeAsyncGraphNodes_def split: prod.splits)

lemma visit_awaiter_refs_ok:
  assumes "refs_ok s" and "node < length (nodes s)"
  shows "refs_ok (visit_awaiter rt node c s) \<and> node < length (nodes (visit_awaiter rt node c s))
           \<and> extends (nodes s) (nodes (visit_awaiter rt node c s))"
proof (cases "awaitable_to_head_node s c")
  case None
  obtain tn hn h' where mk: "makeAsyncGraphNodes rt c (nodes s) = (tn, hn, h')"
    by (cases "makeAsyncGraphNodes rt c (nodes s)") auto
  note p = makeAsyncGraphNodes_props[OF mk]
  have v: "visit_awaiter rt node c s =
      s\<lparr>awaitable_to_head_node := (awaitable_to_head_node s)(c \<mapsto> tn),
        node_q := tn # node_q s,
        nodes := add_awaited_by h' node hn,
        expanded := c # expanded s\<rparr>"
    using None mk by (simp add: visit_awaiter_def)
  have "extends (nodes s) (add_awaited_by h' node hn)"
    using extends_makeAsyncGraphNodes[OF mk] extends_add_awaited_by extends_trans by blast
  then have e: "extends (nodes s) (nodes (visit_awaiter rt node c s))" by (simp add: v)
  have len: "length (nodes (visit_awaiter rt node c s)) = length (nodes s) + Suc (length (fst (expansion rt c)))"
    using p(1) by (simp add: v)
  have "n < length (nodes (visit_awaiter rt node c s))" if "n < length (nodes s)" for n
    using that len by simp
  moreover have "tn < length (nodes (visit_awaiter rt node c s))" using len p(2) by simp
  ultimately have "refs_ok (visit_awaiter rt node c s)"
    using assms(1) unfolding refs_ok_def by (auto simp: v)
  with e assms(2) len show ?thesis by simp
next
  case (Some n)
  then show ?thesis using assms by (auto simp: visit_awaiter_def refs_ok_def)
qed

lemma fold_visit_awaiter_refs_ok:
  assumes "refs_ok s" and "node < length (nodes s)"
  shows "refs_ok (fold (visit_awaiter rt node) cs s) \<and> extends (nodes s) (nodes (fold (visit_awaiter rt node) cs s))"
  using assms
proof (induction cs arbitrary: s)
  case Nil
  then show ?case by simp
next
  case (Cons c cs)
  from visit_awaiter_refs_ok[OF Cons.prems, of rt c]
  have 1: "refs_ok (visit_awaiter rt node c s)" and 2: "node < length (nodes (visit_awaiter rt node c s))"
    and 3: "extends (nodes s) (nodes (visit_awaiter rt node c s))" by auto
  from Cons.IH[OF 1 2] 3 show ?case by (auto intro: extends_trans)
qed

lemma drain_step_refs_ok:
  assumes "refs_ok s" and "node_q s \<noteq> []"
  shows "refs_ok (drain_step rt s) \<and> extends (nodes s) (nodes (drain_step rt s))"
proof -
  let ?node = "hd (node_q s)"
  let ?s1 = "s\<lparr>node_q := tl (node_q s)\<rparr>"
  let ?s2 = "if get_awaiters rt (nodes s ! ?node) = [] then
                  ?s1\<lparr>terminal_async_nodes := List.insert ?node (terminal_async_nodes ?s1)\<rparr>
                else ?s1"
  from assms have n: "?node < length (nodes s)" by (cases "node_q s") (auto simp: refs_ok_def)
  from assms n have "refs_ok ?s2" by (cases "node_q s") (auto simp: refs_ok_def)
  moreover have "nodes ?s2 = nodes s" by simp
  ultimately show ?thesis
    using fold_visit_awaiter_refs_ok[of ?s2 ?node rt] n
    by (simp add: drain_step_def Let_def)
qed

lemma drain_refs_ok:
  assumes "drain rt s = Some s'" and "refs_ok s"
  shows "refs_ok s' \<and> extends (nodes s) (nodes s') \<and> node_q s' = []"
proof -
  have "(refs_ok s' \<and> extends (nodes s) (nodes s')) \<and> node_q s' = []"
  proof (rule drain_rule[OF assms(1), where I = "\<lambda>u. refs_ok u \<and> extends (nodes s) (nodes u)"])
    show "refs_ok s \<and> extends (nodes s) (nodes s)" using assms(2) by simp
  next
    fix u assume "refs_ok u \<and> extends (nodes s) (nodes u)" and "node_q u \<noteq> []"
    then show "refs_ok (drain_step rt u) \<and> extends (nodes s) (nodes (drain_step rt u))"
      using drain_step_refs_ok[of u rt] by (auto intro: extends_trans)
  qed
  then show ?thesis by simp
qed

lemma drain_init_refs_ok: "refs_ok (drain_init rt a)"
  by (auto simp: drain_init_def makeAsyncGraphNodes_def refs_ok_def split: if_splits prod.splits)


lemma bottom_graft_chain:
  "bottom_graft fs (Some (length h)) ts (h @ [new_node (AsyncGraphNodeFrame f)])
     = h @ frame_chain (length h) f fs []"
proof (induction fs arbitrary: h f)
  case Nil
  then show ?case by (simp add: new_node_def)
next
  case (Cons g gs)
  have "add_awaited_by ((h @ [new_node (AsyncGraphNodeFrame f)]) @ [new_node (AsyncGraphNodeFrame g)])
          (length h) (Suc (length h))
      = (h @ [\<lparr>kind = AsyncGraphNodeFrame f, awaited_by = [Suc (length h)]\<rparr>]) @ [new_node (AsyncGraphNodeFrame g)]"
    by (simp add: add_awaited_by_mid new_node_def)
  with Cons.IH[of "h @ [\<lparr>kind = AsyncGraphNodeFrame f, awaited_by = [Suc (length h)]\<rparr>]" g]
  show ?case by (simp add: Let_def)
qed

lemma top_graft_not_found_Some:
  assumes "ef \<notin> set (f # fs)" and "tail < length h"
  shows "top_graft ef f fs (Some x) tail h =
     ([], Some x, length h + Suc (length fs),
      add_awaited_by h tail (length h) @ frame_chain (length h) f fs [length h + Suc (length fs)]
        @ [new_node (AsyncGraphNodeError exit_frame_error [])])"
  using assms
proof (induction fs arbitrary: f tail h)
  case Nil
  then show ?case
    by (simp add: Let_def add_awaited_by_append add_awaited_by_mid new_node_def)
next
  case (Cons g gs)
  let ?H = "add_awaited_by h tail (length h)"
  let ?h2 = "?H @ [new_node (AsyncGraphNodeFrame f)]"
  from Cons.prems have ne: "f \<noteq> ef" and rest: "ef \<notin> set (g # gs)" by auto
  have unfold: "top_graft ef f (g # gs) (Some x) tail h = top_graft ef g gs (Some x) (length h) ?h2"
    using ne Cons.prems(2) by (simp add: Let_def add_awaited_by_append)
  have "length h < length ?h2" by simp
  from Cons.IH[OF rest this] show ?case
    unfolding unfold
    by (simp add: add_awaited_by_mid new_node_def)
qed

lemma top_graft_not_found_None:
  assumes "ef \<notin> set (f # fs)"
  shows "top_graft ef f fs None tail h =
     ([], Some (length h), length h + Suc (length fs),
      h @ frame_chain (length h) f fs [length h + Suc (length fs)]
        @ [new_node (AsyncGraphNodeError exit_frame_error [])])"
proof (cases fs)
  case Nil
  with assms show ?thesis by (simp add: Let_def add_awaited_by_mid new_node_def)
next
  case (Cons g gs)
  with assms have ne: "f \<noteq> ef" and rest: "ef \<notin> set (g # gs)" by auto
  let ?h1 = "h @ [new_node (AsyncGraphNodeFrame f)]"
  have unfold: "top_graft ef f (g # gs) None tail h = top_graft ef g gs (Some (length h)) (length h) ?h1"
    using ne by (simp add: Let_def)
  have "length h < length ?h1" by simp
  from top_graft_not_found_Some[OF rest this, of "length h"] show ?thesis
    unfolding Cons unfold by (simp add: add_awaited_by_mid new_node_def)
qed

lemma makeAsyncGraphNodes_eq:
  "makeAsyncGraphNodes rt a h =
     (length h + length (fst (expansion rt a)), length h,
      h @ chain_nodes (length h) (fst (expansion rt a)) (snd (expansion rt a)))"
  by (simp add: makeAsyncGraphNodes_def split: prod.splits)

lemma nodes_drain_init: "nodes (drain_init rt a) = chain_nodes 0 (fst (expansion rt a)) (snd (expansion rt a))"
  by (simp add: drain_init_def makeAsyncGraphNodes_eq)

lemma kind_chain_nodes_head: "kind (chain_nodes b pre t ! 0) = (case pre of [] \<Rightarrow> t | k # ks \<Rightarrow> k)"
  by (cases pre) (auto simp: new_node_def)

lemma drain_head_kind:
  assumes "drain rt (drain_init rt a) = Some s"
  shows "kind (nodes s ! 0) = head_kind rt a" and "length (fst (expansion rt a)) < length (nodes s)"
proof -
  from drain_refs_ok[OF assms drain_init_refs_ok]
  have e: "extends (nodes (drain_init rt a)) (nodes s)" by simp
  then show "kind (nodes s ! 0) = head_kind rt a"
    by (simp add: extends_def nodes_drain_init kind_chain_nodes_head head_kind_def)
  from e show "length (fst (expansion rt a)) < length (nodes s)"
    by (simp add: extends_def nodes_drain_init)
qed

lemma cooperative_returns:
  assumes "drain rt (drain_init rt cur) = Some s" and "terminal_async_nodes s \<noteq> []"
    and "attach_top (length (fst (expansion rt cur))) 0 frame backs (nodes s) = (rest, head_node, tail_node, h1)"
  shows "cooperative rt cur frame backs =
           Some (Inr (head_node, attach_bottom rt cur rest tail_node (terminal_async_nodes s) h1))"
  using assms by (simp add: cooperative_def makeAsyncGraphNodes_eq)

lemma get_async_graph_cooperative:
  "get_running_loop rt = Some loop \<Longrightarrow> current_task rt loop = Some cur
     \<Longrightarrow> get_async_graph rt frame backs = cooperative rt cur frame backs"
  by (simp add: get_async_graph_def)

lemma exit_not_found_heap:
  assumes d: "drain rt (drain_init rt cur) = Some s" and t: "terminal_async_nodes s \<noteq> []"
    and hk: "head_kind rt cur = AsyncGraphNodeFrame ef" and nf: "ef \<notin> set (frame # backs)"
  shows "cooperative rt cur frame backs =
     Some (Inr (Some (length (nodes s)),
       nodes s @ frame_chain (length (nodes s)) frame backs [length (nodes s) + Suc (length backs)]
         @ [\<lparr>kind = AsyncGraphNodeError exit_frame_error [],
              awaited_by = [Suc (length (nodes s) + Suc (length backs)), 0]\<rparr>,
            new_node (AsyncGraphNodeError entry_point_error [])]))"
proof -
  let ?n = "length (nodes s)"
  let ?k = "Suc (length backs)"
  let ?chain = "frame_chain ?n frame backs [?n + ?k]"
  let ?E = "\<lparr>kind = AsyncGraphNodeError exit_frame_error [], awaited_by = [0]\<rparr>"
  have k0: "kind (nodes s ! 0) = AsyncGraphNodeFrame ef" using drain_head_kind(1)[OF d] hk by simp
  have "add_awaited_by ((nodes s @ ?chain) @ [new_node (AsyncGraphNodeError exit_frame_error [])]) (?n + ?k) 0
      = (nodes s @ ?chain) @ [?E]"
    by (subst add_awaited_by_mid) (simp_all add: new_node_def)
  then have top: "attach_top (length (fst (expansion rt cur))) 0 frame backs (nodes s)
      = ([], Some ?n, ?n + ?k, (nodes s @ ?chain) @ [?E])"
    using k0 top_graft_not_found_None[OF nf, of 0 "nodes s"] by (simp add: attach_top_def)
  have "add_awaited_by (((nodes s @ ?chain) @ [?E]) @ [new_node (AsyncGraphNodeError entry_point_error [])])
          (?n + ?k) (length ((nodes s @ ?chain) @ [?E]))
      = (nodes s @ ?chain) @ [\<lparr>kind = AsyncGraphNodeError exit_frame_error [], awaited_by = [Suc (?n + ?k), 0]\<rparr>,
           new_node (AsyncGraphNodeError entry_point_error [])]"
    using add_awaited_by_mid[of "nodes s @ ?chain" "?n + ?k" ?E "[new_node (AsyncGraphNodeError entry_point_error [])]"
        "length ((nodes s @ ?chain) @ [?E])"]
    by simp
  then have "attach_bottom rt cur [] (?n + ?k) (terminal_async_nodes s) ((nodes s @ ?chain) @ [?E])
     = (nodes s @ ?chain) @ [\<lparr>kind = AsyncGraphNodeError exit_frame_error [], awaited_by = [Suc (?n + ?k), 0]\<rparr>,
           new_node (AsyncGraphNodeError entry_point_error [])]"
    by (simp add: attach_bottom_def Let_def)
  with cooperative_returns[OF d t top] show ?thesis by simp
qed


lemma top_graft_valid:
  assumes "tail < length h" and "top_graft ef f fs hn tail h = (rest, hn', tail', h')"
  shows "extends h h' \<and> tail' < length h'"
  using assms
proof (induction fs arbitrary: f hn tail h)
  case Nil
  show ?case
  proof (cases "f = ef")
    case True
    with Nil show ?thesis by simp
  next
    case False
    with Nil.prems(2) have "tail' = Suc (length h)" and "length h' = Suc (Suc (length h))"
      and "\<forall>i<length h. kind (h' ! i) = kind (h ! i)"
      by (auto simp: Let_def nth_append split: option.splits)
    then show ?thesis by (simp add: extends_def)
  qed
next
  case (Cons g gs)
  show ?case
  proof (cases "f = ef")
    case True
    with Cons.prems show ?thesis by simp
  next
    case False
    let ?h1 = "h @ [new_node (AsyncGraphNodeFrame f)]"
    let ?h2 = "case hn of None \<Rightarrow> ?h1 | Some x \<Rightarrow> add_awaited_by ?h1 tail (length h)"
    let ?hd1 = "case hn of None \<Rightarrow> Some (length h) | Some x \<Rightarrow> Some x"
    from False Cons.prems(2) have rec: "top_graft ef g gs ?hd1 (length h) ?h2 = (rest, hn', tail', h')"
      by (simp add: Let_def)
    have len: "length h < length ?h2" by (simp split: option.splits)
    have e: "extends h ?h2" by (auto simp: extends_def nth_append split: option.splits)
    from Cons.IH[OF len rec] e show ?thesis by (auto intro: extends_trans)
  qed
qed

lemma attach_top_valid:
  assumes "tn < length h" and "th < length h"
    and "attach_top tn th frame backs h = (rest, hn, tail, h1)"
  shows "extends h h1 \<and> tail < length h1"
proof (cases "kind (h ! th)")
  case (AsyncGraphNodeFrame ef)
  obtain r a b c where tg: "top_graft ef frame backs None th h = (r, a, b, c)"
    by (cases "top_graft ef frame backs None th h") auto
  from top_graft_valid[OF assms(2) tg] have "extends h c" and "b < length c" by auto
  moreover from assms(3) AsyncGraphNodeFrame tg have "tail = b" and "h1 = add_awaited_by c b th"
    by (auto simp: attach_top_def)
  ultimately show ?thesis using extends_trans[OF \<open>extends h c\<close>, of h1] by simp
next
  case (AsyncGraphNodeAsyncGraphAwaitable a)
  with assms show ?thesis by (auto simp: attach_top_def)
next
  case (AsyncGraphNodeError t aw)
  with assms show ?thesis by (auto simp: attach_top_def)
qed

lemma fold_add_append:
  "\<forall>t \<in> set ts. t < length h \<Longrightarrow>
     fold (\<lambda>t g. add_awaited_by g t v) ts (h @ x) = fold (\<lambda>t g. add_awaited_by g t v) ts h @ x"
  by (induction ts arbitrary: h) (simp_all add: add_awaited_by_append)

lemma length_fold_add [simp]: "length (fold (\<lambda>t g. add_awaited_by g t v) ts h) = length h"
  by (induction ts arbitrary: h) simp_all

lemma kind_fold_add [simp]: "kind (fold (\<lambda>t g. add_awaited_by g t v) ts h ! i) = kind (h ! i)"
  by (induction ts arbitrary: h) simp_all

lemma awaited_by_fold_add:
  "i < length h \<Longrightarrow> set (awaited_by (fold (\<lambda>t g. add_awaited_by g t v) ts h ! i))
     = set (awaited_by (h ! i)) \<union> (if i \<in> set ts then {v} else {})"
  by (induction ts arbitrary: h) (auto simp: awaited_by_add_awaited_by)

lemma find_entry_found:
  "e \<notin> set pre \<Longrightarrow> find_entry (Some e) (pre @ e # rest) = rest"
  by (induction pre) auto

lemma find_entry_not_found:
  "e \<notin> Some ` set fs \<Longrightarrow> find_entry e fs = []"
  by (induction fs) auto

lemma bottom_graft_None:
  assumes "\<forall>t \<in> set ts. t < length h"
  shows "bottom_graft (f # fs) None ts h
     = fold (\<lambda>t g. add_awaited_by g t (length h)) ts h @ frame_chain (length h) f fs []"
proof -
  let ?H = "fold (\<lambda>t g. add_awaited_by g t (length h)) ts h"
  have "bottom_graft (f # fs) None ts h
      = bottom_graft fs (Some (length ?H)) ts (?H @ [new_node (AsyncGraphNodeFrame f)])"
    using fold_add_append[OF assms] by (simp add: Let_def)
  then show ?thesis by (simp only: bottom_graft_chain) simp
qed

lemma drain_task_refs:
  assumes "drain rt (drain_init rt cur) = Some s"
  shows "fst (makeAsyncGraphNodes rt cur []) < length (nodes s)"
    and "fst (snd (makeAsyncGraphNodes rt cur [])) < length (nodes s)"
  using drain_head_kind(2)[OF assms] by (auto simp: makeAsyncGraphNodes_eq)

subsection \<open>Running the functions\<close>

lemmas run_defs = drain_init_def makeAsyncGraphNodes_eq drain_done drain_more drain_step_def
  visit_awaiter_def get_awaiters_def new_node_def add_awaited_by_def Let_def

lemma rt_task_sel:
  "get_running_loop rt_task = Some 0" "current_task rt_task = (\<lambda>l. Some 0)"
  "awaiters rt_task = (\<lambda>a. [])"
  "expansion rt_task = (\<lambda>a. ([AsyncGraphNodeFrame a], AsyncGraphNodeAsyncGraphAwaitable a))"
  "cr_frame rt_task = (\<lambda>a. Some a)"
  by (simp_all add: rt_task_def)

lemma rt_lost_sel:
  "get_running_loop rt_lost = Some 0" "current_task rt_lost = (\<lambda>l. Some 0)"
  "awaiters rt_lost = (\<lambda>a. [])"
  "expansion rt_lost = (\<lambda>a. ([AsyncGraphNodeFrame a], AsyncGraphNodeAsyncGraphAwaitable a))"
  "cr_frame rt_lost = (\<lambda>a. Some 6)"
  by (simp_all add: rt_lost_def rt_task_def)

lemmas top_defs = attach_top_def makeAsyncGraphNodes_eq new_node_def add_awaited_by_def Let_def

lemma drain_rt_task: "drain rt_task (drain_init rt_task 0) = Some s_task"
  by (simp add: rt_task_def s_task_def run_defs)

lemma drain_rt_lost: "drain rt_lost (drain_init rt_lost 0) = Some s_task"
  by (simp add: rt_lost_def rt_task_def s_task_def run_defs)

lemma drain_rt_cycle: "drain rt_cycle (drain_init rt_cycle 0) = Some s_cycle"
  by (simp add: rt_cycle_def rt_task_def s_cycle_def run_defs eval_nat_numeral)

section \<open>The grafts and the assertion\<close>

text \<open>
  C3. In cooperative mode, let the top graft leave the chain \<open>rest\<close> in \<^verbatim>\<open>frame\<close>, and let
  the search find the task's entry frame in it with a frame \<open>f\<close> behind it. Then the call
  returns, the frame \<open>f\<close> and the frames \<open>fs\<close> behind it are wrapped in new frame nodes
  chained linearly, and the first of these nodes (index \<open>length h1\<close>) is added to the
  \<^verbatim>\<open>awaited_by\<close> set of every node recorded as terminal by the worklist loop; nothing else
  changes in the graph.
\<close>

theorem bottom_graft_fan_in:
  assumes "get_running_loop rt = Some loop" and "current_task rt loop = Some cur_task"
    and "drain rt (drain_init rt cur_task) = Some s" and "terminal_async_nodes s \<noteq> []"
    and "attach_top (fst (makeAsyncGraphNodes rt cur_task [])) (fst (snd (makeAsyncGraphNodes rt cur_task [])))
           frame backs (nodes s) = (rest, head_node, tail_node, h1)"
    and "cr_frame rt cur_task = Some cur_task_entry_frame"
    and "rest = pre @ cur_task_entry_frame # f # fs" and "cur_task_entry_frame \<notin> set pre"
  shows "\<exists>h. get_async_graph rt frame backs = Some (Inr (head_node, h)) \<and>
           drop (length h1) h = frame_chain (length h1) f fs [] \<and>
           (\<forall>t \<in> set (terminal_async_nodes s). t < length h1 \<and> length h1 \<in> set (awaited_by (h ! t))) \<and>
           (\<forall>i < length h1. kind (h ! i) = kind (h1 ! i) \<and>
              set (awaited_by (h ! i)) =
                set (awaited_by (h1 ! i)) \<union> (if i \<in> set (terminal_async_nodes s) then {length h1} else {}))"
proof -
  let ?ts = "terminal_async_nodes s"
  let ?H = "fold (\<lambda>t g. add_awaited_by g t (length h1)) ?ts h1"
  from drain_refs_ok[OF assms(3) drain_init_refs_ok]
  have ts: "\<forall>t \<in> set ?ts. t < length (nodes s)" by (simp add: refs_ok_def)
  from attach_top_valid[OF drain_task_refs[OF assms(3)] assms(5)]
  have "length (nodes s) \<le> length h1" by (simp add: extends_def)
  with ts have ts1: "\<forall>t \<in> set ?ts. t < length h1" by auto
  have "find_entry (cr_frame rt cur_task) rest = f # fs"
    using assms(6,7,8) by (simp add: find_entry_found)
  then have "attach_bottom rt cur_task rest tail_node ?ts h1 = ?H @ frame_chain (length h1) f fs []"
    using bottom_graft_None[OF ts1] by (simp add: attach_bottom_def)
  moreover from assms(5) have "attach_top (length (fst (expansion rt cur_task))) 0 frame backs (nodes s)
      = (rest, head_node, tail_node, h1)" by (simp add: makeAsyncGraphNodes_eq)
  ultimately have "get_async_graph rt frame backs
      = Some (Inr (head_node, ?H @ frame_chain (length h1) f fs []))"
    using cooperative_returns[OF assms(3,4)] get_async_graph_cooperative[OF assms(1,2)] by simp
  moreover have "\<forall>t \<in> set ?ts. t < length h1 \<and> length h1 \<in> set (awaited_by ((?H @ frame_chain (length h1) f fs []) ! t))"
    using ts1 by (simp add: nth_append awaited_by_fold_add)
  moreover have "\<forall>i < length h1. kind ((?H @ frame_chain (length h1) f fs []) ! i) = kind (h1 ! i) \<and>
              set (awaited_by ((?H @ frame_chain (length h1) f fs []) ! i)) =
                set (awaited_by (h1 ! i)) \<union> (if i \<in> set ?ts then {length h1} else {})"
    by (simp add: nth_append awaited_by_fold_add)
  ultimately show ?thesis by (intro exI[of _ "?H @ frame_chain (length h1) f fs []"]) simp
qed

theorem bottom_graft_fan_in_witness:
  "\<exists>h. get_async_graph rt_task 7 [0, 8, 9] = Some (Inr (Some 2, h)) \<and>
       drop 3 h = [\<lparr>kind = AsyncGraphNodeFrame 8, awaited_by = [4]\<rparr>,
                   \<lparr>kind = AsyncGraphNodeFrame 9, awaited_by = []\<rparr>] \<and>
       3 \<in> set (awaited_by (h ! 1))"
proof -
  let ?h1 = "[\<lparr>kind = AsyncGraphNodeFrame 0, awaited_by = [1]\<rparr>,
              \<lparr>kind = AsyncGraphNodeAsyncGraphAwaitable 0, awaited_by = []\<rparr>,
              \<lparr>kind = AsyncGraphNodeFrame 7, awaited_by = [0]\<rparr>]"
  have "get_running_loop rt_task = Some 0" and "current_task rt_task 0 = Some 0"
    and "terminal_async_nodes s_task \<noteq> []"
    and "attach_top (fst (makeAsyncGraphNodes rt_task 0 [])) (fst (snd (makeAsyncGraphNodes rt_task 0 [])))
           7 [0, 8, 9] (nodes s_task) = ([0, 8, 9], Some 2, 2, ?h1)"
    and "cr_frame rt_task 0 = Some 0"
    and "[0, 8, 9] = [] @ 0 # 8 # [9::nat]" and "(0::nat) \<notin> set []"
    by (simp_all add: rt_task_def s_task_def top_defs eval_nat_numeral)
  from bottom_graft_fan_in[OF this(1,2) drain_rt_task this(3-7)]
  obtain h where "get_async_graph rt_task 7 [0, 8, 9] = Some (Inr (Some 2, h))"
    and "drop (length ?h1) h = frame_chain (length ?h1) 8 [9] []"
    and "\<forall>t \<in> set (terminal_async_nodes s_task). t < length ?h1 \<and> length ?h1 \<in> set (awaited_by (h ! t))"
    by blast
  then show ?thesis by (intro exI[of _ h]) (simp add: s_task_def eval_nat_numeral)
qed

text \<open>
  Where the error node for the entry point goes. In cooperative mode, when the search
  does not find the task's entry frame in the chain left by the top graft, exactly one
  node is added: an error node with the text \<^verbatim>\<open>Could not link current task to entry point.\<close>
  and no successor. It is added to the \<^verbatim>\<open>awaited_by\<close> set of \<^verbatim>\<open>tail_node\<close> as lines 176 to 194
  left it, and of no other node.
\<close>

lemma entry_point_error_node_attached_to_tail:
  assumes "get_running_loop rt = Some loop" and "current_task rt loop = Some cur_task"
    and "drain rt (drain_init rt cur_task) = Some s" and "terminal_async_nodes s \<noteq> []"
    and "attach_top (fst (makeAsyncGraphNodes rt cur_task [])) (fst (snd (makeAsyncGraphNodes rt cur_task [])))
           frame backs (nodes s) = (rest, head_node, tail_node, h1)"
    and "cr_frame rt cur_task \<notin> Some ` set rest"
  shows "\<exists>h. get_async_graph rt frame backs = Some (Inr (head_node, h)) \<and>
           length h = Suc (length h1) \<and>
           h ! length h1 =
             \<lparr>kind = AsyncGraphNodeError ''Could not link current task to entry point.'' [],
              awaited_by = []\<rparr> \<and>
           tail_node < length h1 \<and>
           (\<forall>i < length h1. kind (h ! i) = kind (h1 ! i) \<and>
              set (awaited_by (h ! i)) =
                set (awaited_by (h1 ! i)) \<union> (if i = tail_node then {length h1} else {}))"
proof -
  let ?E = "new_node (AsyncGraphNodeError entry_point_error [])"
  let ?h = "add_awaited_by h1 tail_node (length h1) @ [?E]"
  from attach_top_valid[OF drain_task_refs[OF assms(3)] assms(5)]
  have tl: "tail_node < length h1" by simp
  have "find_entry (cr_frame rt cur_task) rest = []"
    using assms(6) by (rule find_entry_not_found)
  then have "attach_bottom rt cur_task rest tail_node (terminal_async_nodes s) h1 = ?h"
    using tl by (simp add: attach_bottom_def add_awaited_by_append)
  moreover from assms(5) have "attach_top (length (fst (expansion rt cur_task))) 0 frame backs (nodes s)
      = (rest, head_node, tail_node, h1)" by (simp add: makeAsyncGraphNodes_eq)
  ultimately have "get_async_graph rt frame backs = Some (Inr (head_node, ?h))"
    using cooperative_returns[OF assms(3,4)] get_async_graph_cooperative[OF assms(1,2)] by simp
  moreover have "?h ! length h1 =
             \<lparr>kind = AsyncGraphNodeError ''Could not link current task to entry point.'' [],
              awaited_by = []\<rparr>"
    by (simp add: nth_append new_node_def entry_point_error_def)
  moreover have "\<forall>i < length h1. kind (?h ! i) = kind (h1 ! i) \<and>
              set (awaited_by (?h ! i)) =
                set (awaited_by (h1 ! i)) \<union> (if i = tail_node then {length h1} else {})"
    by (auto simp: nth_append awaited_by_add_awaited_by)
  ultimately show ?thesis using tl by (intro exI[of _ ?h]) simp
qed

lemma entry_point_error_node_attached_to_tail_example:
  "\<exists>h. get_async_graph rt_lost 7 [0, 8] = Some (Inr (Some 2, h)) \<and>
       length h = 4 \<and>
       h ! 3 = \<lparr>kind = AsyncGraphNodeError ''Could not link current task to entry point.'' [],
                awaited_by = []\<rparr> \<and>
       set (awaited_by (h ! 2)) = {0, 3} \<and> set (awaited_by (h ! 1)) = {} \<and> set (awaited_by (h ! 0)) = {1}"
proof -
  let ?h1 = "[\<lparr>kind = AsyncGraphNodeFrame 0, awaited_by = [1]\<rparr>,
              \<lparr>kind = AsyncGraphNodeAsyncGraphAwaitable 0, awaited_by = []\<rparr>,
              \<lparr>kind = AsyncGraphNodeFrame 7, awaited_by = [0]\<rparr>]"
  have "get_running_loop rt_lost = Some 0" and "current_task rt_lost 0 = Some 0"
    and "terminal_async_nodes s_task \<noteq> []"
    and "attach_top (fst (makeAsyncGraphNodes rt_lost 0 [])) (fst (snd (makeAsyncGraphNodes rt_lost 0 [])))
           7 [0, 8] (nodes s_task) = ([0, 8], Some 2, 2, ?h1)"
    and "cr_frame rt_lost 0 \<notin> Some ` set [0, 8]"
    by (simp_all add: rt_lost_def rt_task_def s_task_def top_defs eval_nat_numeral)
  from entry_point_error_node_attached_to_tail[OF this(1,2) drain_rt_lost this(3-5)]
  obtain h where h: "get_async_graph rt_lost 7 [0, 8] = Some (Inr (Some 2, h))"
    "length h = Suc (length ?h1)"
    "h ! length ?h1 = \<lparr>kind = AsyncGraphNodeError ''Could not link current task to entry point.'' [],
              awaited_by = []\<rparr>"
    "\<forall>i < length ?h1. kind (h ! i) = kind (?h1 ! i) \<and>
              set (awaited_by (h ! i)) =
                set (awaited_by (?h1 ! i)) \<union> (if i = 2 then {length ?h1} else {})"
    by blast
  from h(4) have "set (awaited_by (h ! 2)) = {0, 3}" "set (awaited_by (h ! 1)) = {}"
    "set (awaited_by (h ! 0)) = {1}"
    by (auto simp: eval_nat_numeral)
  with h(1,2,3) show ?thesis by (intro exI[of _ h]) (simp add: eval_nat_numeral)
qed

text \<open>
  C4, on the code. On \<open>rt_lost\<close> (one task, awaited by nothing, whose entry frame is on no
  stack) with the stack of frames 7, 0, 8 the call returns the graph \<open>h_lost\<close>. One error
  node with the text \<^verbatim>\<open>Could not link current task to entry point.\<close> is added, node 3. The
  node recorded as terminal is node 1, the task's node. Line 208 adds the error node to
  \<^verbatim>\<open>tail_node\<close>, which line 186 has set to node 2, the node of frame 7; node 1 gets no
  successor, so no path leads from the terminal node to the error node.
\<close>

theorem entry_point_error_node_unreachable:
  "get_async_graph rt_lost 7 [0, 8] = Some (Inr (Some 2, h_lost)) \<and>
   map_option terminal_async_nodes (drain rt_lost (drain_init rt_lost 0)) = Some [1] \<and>
   kind (h_lost ! 3) = AsyncGraphNodeError ''Could not link current task to entry point.'' [] \<and>
   (1, 3) \<notin> (edges h_lost)\<^sup>*"
proof -
  have "get_async_graph rt_lost 7 [0, 8] = Some (Inr (Some 2, h_lost))"
    by (simp add: get_async_graph_def cooperative_def drain_rt_lost attach_bottom_def
        entry_point_error_def h_lost_def rt_lost_sel s_task_def top_defs eval_nat_numeral)
  moreover have "(1, 3) \<notin> (edges h_lost)\<^sup>*"
  proof
    assume "(1, 3) \<in> (edges h_lost)\<^sup>*"
    then show False
      by (rule converse_rtranclE) (simp_all add: edges_def h_lost_def)
  qed
  ultimately show ?thesis by (simp add: drain_rt_lost s_task_def h_lost_def eval_nat_numeral)
qed

text \<open>
  C5. In cooperative mode, with a frame node as head of the current task, a worklist loop
  that returned with a terminal node, and a caller's frame chain that does not contain
  the frame of that head node: the call returns without raising, its head is the node of
  the caller's frame, every frame of the chain is wrapped and chained, and the last
  wrapped frame node is awaited by exactly one node, which is an error node with the text
  \<^verbatim>\<open>Could not find exit frame for current task\<close>.
\<close>

theorem exit_frame_not_found_error_node:
  assumes "get_running_loop rt = Some loop" and "current_task rt loop = Some cur_task"
    and "drain rt (drain_init rt cur_task) = Some s" and "terminal_async_nodes s \<noteq> []"
    and "head_kind rt cur_task = AsyncGraphNodeFrame cur_task_exit_frame"
    and "cur_task_exit_frame \<notin> set (frame # backs)"
  shows "\<exists>h. get_async_graph rt frame backs = Some (Inr (Some (length (nodes s)), h)) \<and>
           take (length (nodes s) + Suc (length backs)) h =
             nodes s @ frame_chain (length (nodes s)) frame backs [length (nodes s) + Suc (length backs)] \<and>
           kind (h ! (length (nodes s) + Suc (length backs))) =
             AsyncGraphNodeError ''Could not find exit frame for current task'' []"
  unfolding get_async_graph_cooperative[OF assms(1,2)] exit_not_found_heap[OF assms(3-6)]
  by (simp add: nth_append exit_frame_error_def)

theorem exit_frame_not_found_error_node_witness:
  "\<exists>h. get_async_graph rt_task 7 [8] = Some (Inr (Some 2, h)) \<and>
       take 4 h =
         [\<lparr>kind = AsyncGraphNodeFrame 0, awaited_by = [1]\<rparr>,
          \<lparr>kind = AsyncGraphNodeAsyncGraphAwaitable 0, awaited_by = []\<rparr>,
          \<lparr>kind = AsyncGraphNodeFrame 7, awaited_by = [3]\<rparr>,
          \<lparr>kind = AsyncGraphNodeFrame 8, awaited_by = [4]\<rparr>] \<and>
       kind (h ! 4) = AsyncGraphNodeError ''Could not find exit frame for current task'' []"
proof -
  have "get_running_loop rt_task = Some 0" and "current_task rt_task 0 = Some 0"
    and "terminal_async_nodes s_task \<noteq> []"
    and "head_kind rt_task 0 = AsyncGraphNodeFrame 0" and "0 \<notin> set (7 # [8::nat])"
    by (simp_all add: rt_task_def head_kind_def s_task_def)
  from exit_frame_not_found_error_node[OF this(1,2) drain_rt_task this(3,4,5)]
  show ?thesis by (simp add: s_task_def eval_nat_numeral)
qed

text \<open>
  C10. In the same situation the error node for the exit frame is not a sink: its
  \<^verbatim>\<open>awaited_by\<close> set holds the head node of the current task and the error node for the
  entry point, which is the last node built.
\<close>

theorem exit_frame_error_node_not_a_sink:
  assumes "get_running_loop rt = Some loop" and "current_task rt loop = Some cur_task"
    and "drain rt (drain_init rt cur_task) = Some s" and "terminal_async_nodes s \<noteq> []"
    and "head_kind rt cur_task = AsyncGraphNodeFrame cur_task_exit_frame"
    and "cur_task_exit_frame \<notin> set (frame # backs)"
  shows "\<exists>h. get_async_graph rt frame backs = Some (Inr (Some (length (nodes s)), h)) \<and>
           length h = length (nodes s) + Suc (length backs) + 2 \<and>
           kind (h ! (length (nodes s) + Suc (length backs))) =
             AsyncGraphNodeError ''Could not find exit frame for current task'' [] \<and>
           set (awaited_by (h ! (length (nodes s) + Suc (length backs)))) =
             {fst (snd (makeAsyncGraphNodes rt cur_task [])), length (nodes s) + Suc (length backs) + 1} \<and>
           kind (h ! (length (nodes s) + Suc (length backs) + 1)) =
             AsyncGraphNodeError ''Could not link current task to entry point.'' []"
  unfolding get_async_graph_cooperative[OF assms(1,2)] exit_not_found_heap[OF assms(3-6)]
  by (auto simp: nth_append exit_frame_error_def entry_point_error_def new_node_def makeAsyncGraphNodes_eq)

theorem exit_frame_error_node_not_a_sink_witness:
  "\<exists>h. get_async_graph rt_task 7 [8] = Some (Inr (Some 2, h)) \<and>
       length h = 6 \<and>
       kind (h ! 4) = AsyncGraphNodeError ''Could not find exit frame for current task'' [] \<and>
       set (awaited_by (h ! 4)) = {0, 5} \<and>
       kind (h ! 5) = AsyncGraphNodeError ''Could not link current task to entry point.'' []"
proof -
  have "get_running_loop rt_task = Some 0" and "current_task rt_task 0 = Some 0"
    and "terminal_async_nodes s_task \<noteq> []"
    and "head_kind rt_task 0 = AsyncGraphNodeFrame 0" and "0 \<notin> set (7 # [8::nat])"
    by (simp_all add: rt_task_def head_kind_def s_task_def)
  from exit_frame_error_node_not_a_sink[OF this(1,2) drain_rt_task this(3,4,5)]
  show ?thesis by (simp add: s_task_def makeAsyncGraphNodes_eq eval_nat_numeral)
qed

text \<open>
  C6. In cooperative mode, when the worklist loop ends with no terminal node the call
  raises \<^verbatim>\<open>AssertionError\<close>; and whenever the call returns a graph, the loop has ended with
  at least one terminal node.
\<close>

theorem no_terminal_node_assertion:
  assumes "get_running_loop rt = Some loop" and "current_task rt loop = Some cur_task"
  shows "(\<forall>s. drain rt (drain_init rt cur_task) = Some s \<and> terminal_async_nodes s = []
            \<longrightarrow> get_async_graph rt frame backs = Some (Inl AssertionError)) \<and>
         (\<forall>r. get_async_graph rt frame backs = Some (Inr r)
            \<longrightarrow> (\<exists>s. drain rt (drain_init rt cur_task) = Some s \<and> terminal_async_nodes s \<noteq> []))"
  unfolding get_async_graph_cooperative[OF assms]
  by (auto simp: cooperative_def makeAsyncGraphNodes_eq split: option.splits if_splits prod.splits)

theorem no_terminal_node_assertion_witness:
  "drain rt_cycle (drain_init rt_cycle 0) = Some s_cycle \<and> terminal_async_nodes s_cycle = [] \<and>
   get_async_graph rt_cycle 7 [0, 8] = Some (Inl AssertionError)"
proof -
  have "get_running_loop rt_cycle = Some 0" and "current_task rt_cycle 0 = Some 0"
    by (simp_all add: rt_cycle_def rt_task_def)
  from no_terminal_node_assertion[OF this, of 7 "[0, 8]"] drain_rt_cycle
  show ?thesis by (simp add: s_cycle_def)
qed

section \<open>Termination and memoization of the worklist loop\<close>

lemma get_awaiters_kind: "kind n = kind n' \<Longrightarrow> get_awaiters rt n = get_awaiters rt n'"
  by (simp add: get_awaiters_def)

lemma visit_awaiter_queue_ok:
  assumes fin: "finite A" and ok: "queue_ok rt A s" and c: "c \<in> A" and n: "node < length (nodes s)"
  shows "queue_ok rt A (visit_awaiter rt node c s) \<and>
         drain_measure A (visit_awaiter rt node c s) \<le> drain_measure A s \<and>
         node < length (nodes (visit_awaiter rt node c s))"
proof (cases "awaitable_to_head_node s c")
  case (Some r)
  then have v: "visit_awaiter rt node c s = s\<lparr>nodes := add_awaited_by (nodes s) node r\<rparr>"
    by (simp add: visit_awaiter_def)
  show ?thesis using ok n unfolding v by (simp add: queue_ok_def drain_measure_def)
next
  case None
  let ?h' = "nodes s @ chain_nodes (length (nodes s)) (fst (expansion rt c)) (snd (expansion rt c))"
  let ?tn = "length (nodes s) + length (fst (expansion rt c))"
  let ?s' = "s\<lparr>awaitable_to_head_node := (awaitable_to_head_node s)(c \<mapsto> ?tn),
        node_q := ?tn # node_q s,
        nodes := add_awaited_by ?h' node (length (nodes s)),
        expanded := c # expanded s\<rparr>"
  have v: "visit_awaiter rt node c s = ?s'"
    using None by (simp add: visit_awaiter_def makeAsyncGraphNodes_eq)
  have cnew: "c \<notin> dom (awaitable_to_head_node s)" using None by auto
  have "c \<in> A - dom (awaitable_to_head_node s)" using c cnew by simp
  then have pos: "0 < card (A - dom (awaitable_to_head_node s))"
    using fin by (metis card_gt_0_iff finite_Diff empty_iff)
  have "A - dom (awaitable_to_head_node ?s') = (A - dom (awaitable_to_head_node s)) - {c}"
    by auto
  then have "card (A - dom (awaitable_to_head_node ?s')) = card (A - dom (awaitable_to_head_node s)) - 1"
    using \<open>c \<in> A - dom (awaitable_to_head_node s)\<close> by simp
  then have m: "drain_measure A ?s' \<le> drain_measure A s"
    using pos by (simp add: drain_measure_def)
  have k_tn: "kind (add_awaited_by ?h' node (length (nodes s)) ! ?tn) = snd (expansion rt c)"
    by (simp add: nth_append chain_nodes_tail new_node_def)
  have k_old: "kind (add_awaited_by ?h' node (length (nodes s)) ! i) = kind (nodes s ! i)"
    if "i < length (nodes s)" for i using that by (simp add: nth_append)
  have q: "\<forall>n \<in> set (node_q ?s'). n < length (nodes ?s') \<and>
        (\<exists>a \<in> A. kind (nodes ?s' ! n) = snd (expansion rt a))"
  proof
    fix x assume "x \<in> set (node_q ?s')"
    then consider "x = ?tn" | "x \<in> set (node_q s)" by auto
    then show "x < length (nodes ?s') \<and> (\<exists>a \<in> A. kind (nodes ?s' ! x) = snd (expansion rt a))"
    proof cases
      case 1
      then show ?thesis using k_tn c by auto
    next
      case 2
      with ok have "x < length (nodes s)" and "\<exists>a \<in> A. kind (nodes s ! x) = snd (expansion rt a)"
        by (auto simp: queue_ok_def)
      then show ?thesis using k_old[of x] by auto
    qed
  qed
  have "queue_ok rt A ?s'"
    unfolding queue_ok_def using q ok c cnew by (auto simp: queue_ok_def)
  with m n show ?thesis unfolding v by simp
qed

lemma fold_visit_awaiter_queue_ok:
  assumes "finite A" and "queue_ok rt A s" and "set cs \<subseteq> A" and "node < length (nodes s)"
  shows "queue_ok rt A (fold (visit_awaiter rt node) cs s) \<and>
         drain_measure A (fold (visit_awaiter rt node) cs s) \<le> drain_measure A s"
  using assms(2-)
proof (induction cs arbitrary: s)
  case Nil
  then show ?case by simp
next
  case (Cons c cs)
  from Cons.prems have c: "c \<in> A" and cs: "set cs \<subseteq> A" by auto
  from visit_awaiter_queue_ok[OF assms(1) Cons.prems(1) c Cons.prems(3)]
  have 1: "queue_ok rt A (visit_awaiter rt node c s)"
    and 2: "drain_measure A (visit_awaiter rt node c s) \<le> drain_measure A s"
    and 3: "node < length (nodes (visit_awaiter rt node c s))" by auto
  from Cons.IH[OF 1 cs 3] 2 show ?case by auto
qed

lemma drain_step_queue_ok:
  assumes fin: "finite A" and closed: "\<forall>a \<in> A. set (tail_awaiters rt a) \<subseteq> A"
    and ok: "queue_ok rt A s" and ne: "node_q s \<noteq> []"
  shows "queue_ok rt A (drain_step rt s) \<and> drain_measure A (drain_step rt s) < drain_measure A s"
proof -
  let ?node = "hd (node_q s)"
  let ?aws = "get_awaiters rt (nodes s ! ?node)"
  let ?s1 = "s\<lparr>node_q := tl (node_q s)\<rparr>"
  let ?s2 = "if ?aws = [] then
                  ?s1\<lparr>terminal_async_nodes := List.insert ?node (terminal_async_nodes ?s1)\<rparr>
                else ?s1"
  from ne have mem: "?node \<in> set (node_q s)" by simp
  with ok have n: "?node < length (nodes s)"
    and "\<exists>a \<in> A. kind (nodes s ! ?node) = snd (expansion rt a)"
    by (auto simp: queue_ok_def)
  then obtain a where a: "a \<in> A" and k: "kind (nodes s ! ?node) = snd (expansion rt a)" by auto
  have "?aws = tail_awaiters rt a"
    unfolding tail_awaiters_def by (rule get_awaiters_kind) (simp add: k new_node_def)
  with closed a have sub: "set (remdups ?aws) \<subseteq> A" by auto
  have ok2: "queue_ok rt A ?s2"
    using ok ne by (cases "node_q s") (auto simp: queue_ok_def)
  have m2: "drain_measure A ?s2 < drain_measure A s"
    using ne by (cases "node_q s") (auto simp: drain_measure_def)
  have n2: "?node < length (nodes ?s2)" using n by simp
  from fold_visit_awaiter_queue_ok[OF fin ok2 sub n2] m2
  show ?thesis by (simp add: drain_step_def Let_def)
qed

lemma drain_terminates:
  assumes fin: "finite A" and closed: "\<forall>a \<in> A. set (tail_awaiters rt a) \<subseteq> A"
    and ok: "queue_ok rt A s"
  shows "\<exists>s'. drain rt s = Some s'"
  using ok
proof (induction "drain_measure A s" arbitrary: s rule: less_induct)
  case less
  show ?case
  proof (cases "node_q s = []")
    case True
    then show ?thesis by (simp add: drain_done)
  next
    case False
    from drain_step_queue_ok[OF fin closed less.prems False]
    have "queue_ok rt A (drain_step rt s)" and "drain_measure A (drain_step rt s) < drain_measure A s"
      by auto
    from less.hyps[OF this(2) this(1)] show ?thesis by (simp add: drain_more[OF False])
  qed
qed

lemma drain_init_queue_ok: "cur \<in> A \<Longrightarrow> queue_ok rt A (drain_init rt cur)"
  by (auto simp: queue_ok_def drain_init_def makeAsyncGraphNodes_eq chain_nodes_tail new_node_def)

lemma drain_queue_ok:
  assumes "finite A" and "\<forall>a \<in> A. set (tail_awaiters rt a) \<subseteq> A" and "queue_ok rt A s"
    and "drain rt s = Some s'"
  shows "queue_ok rt A s' \<and> node_q s' = []"
  by (rule drain_rule[OF assms(4), where I = "queue_ok rt A"])
     (use assms drain_step_queue_ok in auto)

lemma rt_cycle_sel:
  "get_running_loop rt_cycle = Some 0" "current_task rt_cycle = (\<lambda>l. Some 0)"
  "awaiters rt_cycle = (\<lambda>a. if a = 0 then [1] else if a = 1 then [0] else [])"
  "expansion rt_cycle = (\<lambda>a. ([AsyncGraphNodeFrame a], AsyncGraphNodeAsyncGraphAwaitable a))"
  "cr_frame rt_cycle = (\<lambda>a. Some a)"
  by (simp_all add: rt_cycle_def rt_task_def)

lemma rt_converge_sel:
  "get_running_loop rt_converge = Some 0" "current_task rt_converge = (\<lambda>l. Some 0)"
  "awaiters rt_converge = (\<lambda>a. if a = 0 then [1, 2] else if a = 1 then [3] else if a = 2 then [3] else [])"
  "expansion rt_converge = (\<lambda>a. ([AsyncGraphNodeFrame a], AsyncGraphNodeAsyncGraphAwaitable a))"
  "cr_frame rt_converge = (\<lambda>a. Some a)"
  by (simp_all add: rt_converge_def rt_task_def)

lemma visit_awaiter_expanded_ok: "expanded_ok s \<Longrightarrow> expanded_ok (visit_awaiter rt node c s)"
  by (auto simp: expanded_ok_def visit_awaiter_def makeAsyncGraphNodes_eq split: option.splits)

lemma drain_step_expanded_ok: "expanded_ok s \<Longrightarrow> expanded_ok (drain_step rt s)"
proof -
  have f: "expanded_ok u \<Longrightarrow> expanded_ok (fold (visit_awaiter rt node) cs u)" for node cs u
    by (induction cs arbitrary: u) (simp_all add: visit_awaiter_expanded_ok)
  assume "expanded_ok s"
  then show ?thesis unfolding drain_step_def Let_def
    by (intro f) (simp add: expanded_ok_def)
qed

lemma expanded_at_most_once:
  assumes "drain rt (drain_init rt cur) = Some s"
  shows "distinct (expanded s) \<and> set (expanded s) = dom (awaitable_to_head_node s)"
proof -
  have "expanded_ok (drain_init rt cur)"
    by (simp add: expanded_ok_def drain_init_def makeAsyncGraphNodes_eq)
  from drain_rule[OF assms, where I = expanded_ok, OF this] drain_step_expanded_ok
  show ?thesis by (simp add: expanded_ok_def)
qed

text \<open>
  C7. Let \<open>A\<close> be a finite set of awaitables that holds the current task and, with each of
  its members, the awaiters read at the node enqueued for it. Then the worklist loop
  ends with an empty worklist, and it has expanded only awaitables of \<open>A\<close>, each of them
  at most once.
\<close>

theorem drain_terminates_on_finite_graph:
  assumes "finite A" and "cur_task \<in> A" and "\<forall>a \<in> A. set (tail_awaiters rt a) \<subseteq> A"
  shows "\<exists>s. drain rt (drain_init rt cur_task) = Some s \<and> node_q s = [] \<and>
             distinct (expanded s) \<and> set (expanded s) \<subseteq> A"
proof -
  note ok = drain_init_queue_ok[OF assms(2), of rt]
  from drain_terminates[OF assms(1,3) ok]
  obtain s where s: "drain rt (drain_init rt cur_task) = Some s" by auto
  from drain_queue_ok[OF assms(1,3) ok s] s show ?thesis by (auto simp: queue_ok_def)
qed

theorem drain_terminates_on_finite_graph_witness:
  "\<exists>s. drain rt_cycle (drain_init rt_cycle 0) = Some s \<and> node_q s = [] \<and>
       distinct (expanded s) \<and> set (expanded s) \<subseteq> {0, 1}"
proof -
  have "finite {0, 1::nat}" and "(0::nat) \<in> {0, 1}"
    and "\<forall>a \<in> {0, 1}. set (tail_awaiters rt_cycle a) \<subseteq> {0, 1}"
    by (simp_all add: tail_awaiters_def get_awaiters_def new_node_def rt_cycle_sel)
  from drain_terminates_on_finite_graph[OF this] show ?thesis .
qed

text \<open>
  C1, on the code. On \<open>rt_converge\<close> the awaitable 3 is awaited by 1 and by 2. Its expansion
  has node 6 as head and node 7 as tail. The map records node 7, the tail, for it
  (line 167 stores \<^verbatim>\<open>child_node\<close>). The branch that expands it (node 5) gets its edge to
  the head, node 6; the branch that finds it in the map (node 3) gets its edge to the
  recorded node 7. The head node has one inbound edge from the two branches, not two.
\<close>

theorem converging_awaiter_recorded_by_tail:
  "drain rt_converge (drain_init rt_converge 0) = Some s_converge \<and>
   makeAsyncGraphNodes rt_converge 3 (take 6 (nodes s_converge)) = (7, 6, take 6 (nodes s_converge) @
      [\<lparr>kind = AsyncGraphNodeFrame 3, awaited_by = [7]\<rparr>,
       \<lparr>kind = AsyncGraphNodeAsyncGraphAwaitable 3, awaited_by = []\<rparr>]) \<and>
   awaitable_to_head_node s_converge 3 = Some 7 \<and>
   awaited_by (nodes s_converge ! 5) = [6] \<and>
   awaited_by (nodes s_converge ! 3) = [7]"
  by (simp add: rt_converge_sel s_converge_def run_defs eval_nat_numeral)

section \<open>The serializer\<close>

lemma dot_loop_done: "q s = [] \<Longrightarrow> dot_loop rt h s = Some s"
  by (simp add: dot_loop.simps)

lemma dot_loop_more: "q s \<noteq> [] \<Longrightarrow> dot_loop rt h s = dot_loop rt h (dot_step rt h s)"
  by (subst dot_loop.simps) simp

lemmas dot_defs = dot_init_def dot_loop_done dot_loop_more dot_step_def dot_visit_def dot_child_def
  node_id_def node_str_def escape_label_def Let_def str_nat.simps

lemma escape_label_quote: "replace_char c [c] s = s"
  by (induction s) auto

lemma escape_label_newline_only: "escape_label s = replace_char (CHR 0x0A) [CHR 0x5C, CHR ''n''] s"
  by (simp add: escape_label_def escape_label_quote)

lemma reach_lt:
  assumes "closed_heap h" and "head < length h" and "n \<in> reach h head"
  shows "n < length h"
proof -
  from assms(3) have "(head, n) \<in> (edges h)\<^sup>*" by (simp add: reach_def)
  then show ?thesis
    by (induction rule: rtrancl_induct) (use assms(1,2) in \<open>auto simp: edges_def closed_heap_def\<close>)
qed

lemma reach_child:
  "n \<in> reach h head \<Longrightarrow> n < length h \<Longrightarrow> c \<in> set (awaited_by (h ! n)) \<Longrightarrow> c \<in> reach h head"
  unfolding reach_def by (auto simp: edges_def intro: rtrancl_into_rtrancl)

lemma node_id_props:
  assumes "node_id n s = (i, s')" and "ids_ok s"
  shows "ids_ok s'" and "node_to_id s \<subseteq>\<^sub>m node_to_id s'" and "node_to_id s' n = Some i"
    and "dom (node_to_id s') = insert n (dom (node_to_id s))"
    and "q s' = q s" and "seen s' = seen s" and "graph s' = graph s"
proof -
  show "ids_ok s'"
  proof (cases "node_to_id s n")
    case None
    with assms(1) have s': "s' = s\<lparr>next_id := next_id s + 1, node_to_id := (node_to_id s)(n \<mapsto> next_id s + 1)\<rparr>"
      by (auto simp: node_id_def)
    show ?thesis unfolding s' ids_ok_def using assms(2) None
      by (fastforce simp: ids_ok_def split: if_splits)
  next
    case (Some j)
    with assms show ?thesis by (simp add: node_id_def)
  qed
  show "node_to_id s \<subseteq>\<^sub>m node_to_id s'"
    using assms(1) by (auto simp: node_id_def map_le_def split: option.splits)
  show "node_to_id s' n = Some i"
    using assms(1) by (auto simp: node_id_def split: option.splits)
  show "dom (node_to_id s') = insert n (dom (node_to_id s))"
    using assms(1) by (auto simp: node_id_def split: option.splits)
  show "q s' = q s" "seen s' = seen s" "graph s' = graph s"
    using assms(1) by (auto simp: node_id_def split: option.splits)
qed

lemma map_le_the: "m \<subseteq>\<^sub>m m' \<Longrightarrow> a \<in> dom m \<Longrightarrow> the (m' a) = the (m a)"
  by (auto simp: map_le_def dom_def)

lemma dot_child_props:
  assumes "ids_ok s" and "node \<in> dom (node_to_id s)"
  shows "ids_ok (dot_child node c s)"
    and "node_to_id s \<subseteq>\<^sub>m node_to_id (dot_child node c s)"
    and "dom (node_to_id (dot_child node c s)) = insert c (dom (node_to_id s))"
    and "q (dot_child node c s) = c # q s" and "seen (dot_child node c s) = seen s"
    and "graph (dot_child node c s) =
           graph s @ [Edge (the (node_to_id (dot_child node c s) node)) (the (node_to_id (dot_child node c s) c))]"
proof -
  let ?s1 = "s\<lparr>q := c # q s\<rparr>"
  obtain i s2 where a: "node_id node ?s1 = (i, s2)" by (cases "node_id node ?s1") auto
  obtain j s3 where b: "node_id c s2 = (j, s3)" by (cases "node_id c s2") auto
  have r: "dot_child node c s = s3\<lparr>graph := graph s3 @ [Edge i j]\<rparr>"
    by (simp add: dot_child_def Let_def a b)
  have ok1: "ids_ok ?s1" using assms(1) by (simp add: ids_ok_def)
  note A = node_id_props[OF a ok1]
  note B = node_id_props[OF b A(1)]
  have le: "node_to_id s \<subseteq>\<^sub>m node_to_id s3" using A(2) B(2) map_le_trans by fastforce
  have i: "node_to_id s3 node = Some i" using A(3) B(2) by (auto simp: map_le_def dom_def)
  show "ids_ok (dot_child node c s)" using B(1) by (simp add: r ids_ok_def)
  show "node_to_id s \<subseteq>\<^sub>m node_to_id (dot_child node c s)" using le by (simp add: r)
  show "dom (node_to_id (dot_child node c s)) = insert c (dom (node_to_id s))"
    using A(4) B(4) assms(2) by (auto simp: r)
  show "q (dot_child node c s) = c # q s" using A(5) B(5) by (simp add: r)
  show "seen (dot_child node c s) = seen s" using A(6) B(6) by (simp add: r)
  show "graph (dot_child node c s) =
           graph s @ [Edge (the (node_to_id (dot_child node c s) node)) (the (node_to_id (dot_child node c s) c))]"
    using A(7) B(7) B(3) i by (simp add: r)
qed

lemma fold_dot_child_props:
  assumes "ids_ok s" and "node \<in> dom (node_to_id s)"
  shows "ids_ok (fold (dot_child node) cs s) \<and>
         node_to_id s \<subseteq>\<^sub>m node_to_id (fold (dot_child node) cs s) \<and>
         dom (node_to_id (fold (dot_child node) cs s)) = dom (node_to_id s) \<union> set cs \<and>
         q (fold (dot_child node) cs s) = rev cs @ q s \<and>
         seen (fold (dot_child node) cs s) = seen s \<and>
         graph (fold (dot_child node) cs s) =
           graph s @ map (\<lambda>c. Edge (the (node_to_id (fold (dot_child node) cs s) node))
                                  (the (node_to_id (fold (dot_child node) cs s) c))) cs"
  using assms
proof (induction cs arbitrary: s)
  case Nil
  then show ?case by simp
next
  case (Cons c cs)
  let ?s1 = "dot_child node c s"
  let ?s' = "fold (dot_child node) cs ?s1"
  note C = dot_child_props[OF Cons.prems, of c]
  have n1: "node \<in> dom (node_to_id ?s1)" using C(3) Cons.prems(2) by simp
  have c1: "c \<in> dom (node_to_id ?s1)" using C(3) by simp
  from Cons.IH[OF C(1) n1]
  have ok: "ids_ok ?s'" and le: "node_to_id ?s1 \<subseteq>\<^sub>m node_to_id ?s'"
    and d: "dom (node_to_id ?s') = dom (node_to_id ?s1) \<union> set cs"
    and qq: "q ?s' = rev cs @ q ?s1" and sn: "seen ?s' = seen ?s1"
    and g: "graph ?s' = graph ?s1 @ map (\<lambda>c. Edge (the (node_to_id ?s' node)) (the (node_to_id ?s' c))) cs"
    by auto
  have "the (node_to_id ?s1 node) = the (node_to_id ?s' node)"
    and "the (node_to_id ?s1 c) = the (node_to_id ?s' c)"
    using map_le_the[OF le n1] map_le_the[OF le c1] by simp_all
  with g C(6) have "graph ?s' = graph s @ map (\<lambda>c. Edge (the (node_to_id ?s' node)) (the (node_to_id ?s' c))) (c # cs)"
    by simp
  moreover have "node_to_id s \<subseteq>\<^sub>m node_to_id ?s'" using C(2) le map_le_trans by blast
  moreover have "dom (node_to_id ?s') = dom (node_to_id s) \<union> set (c # cs)" using d C(3) by auto
  ultimately show ?case using ok qq sn C(4,5) by simp
qed

lemma dot_visit_props:
  assumes "ids_ok s"
  shows "ids_ok (dot_visit rt h node s) \<and>
         node_to_id s \<subseteq>\<^sub>m node_to_id (dot_visit rt h node s) \<and>
         dom (node_to_id (dot_visit rt h node s)) = insert node (dom (node_to_id s) \<union> set (awaited_by (h ! node))) \<and>
         q (dot_visit rt h node s) = rev (remdups (awaited_by (h ! node))) @ q s \<and>
         seen (dot_visit rt h node s) = node # seen s \<and>
         graph (dot_visit rt h node s) = graph s @ emit rt h (node_to_id (dot_visit rt h node s)) node"
proof -
  let ?s1 = "s\<lparr>seen := node # seen s\<rparr>"
  let ?cs = "remdups (awaited_by (h ! node))"
  obtain i s2 where a: "node_id node ?s1 = (i, s2)" by (cases "node_id node ?s1") auto
  let ?s3 = "s2\<lparr>graph := graph s2 @ [Vertex i (escape_label (node_str rt (h ! node)))]\<rparr>"
  have r: "dot_visit rt h node s = fold (dot_child node) ?cs ?s3"
    by (simp add: dot_visit_def Let_def a)
  have ok1: "ids_ok ?s1" using assms by (simp add: ids_ok_def)
  note A = node_id_props[OF a ok1]
  have ok3: "ids_ok ?s3" using A(1) by (simp add: ids_ok_def)
  have n3: "node \<in> dom (node_to_id ?s3)" using A(3) by auto
  from fold_dot_child_props[OF ok3 n3, of ?cs]
  have ok: "ids_ok (fold (dot_child node) ?cs ?s3)"
    and le: "node_to_id ?s3 \<subseteq>\<^sub>m node_to_id (fold (dot_child node) ?cs ?s3)"
    and d: "dom (node_to_id (fold (dot_child node) ?cs ?s3)) = dom (node_to_id ?s3) \<union> set ?cs"
    and qq: "q (fold (dot_child node) ?cs ?s3) = rev ?cs @ q ?s3"
    and sn: "seen (fold (dot_child node) ?cs ?s3) = seen ?s3"
    and g: "graph (fold (dot_child node) ?cs ?s3) =
           graph ?s3 @ map (\<lambda>c. Edge (the (node_to_id (fold (dot_child node) ?cs ?s3) node))
                                  (the (node_to_id (fold (dot_child node) ?cs ?s3) c))) ?cs"
    by auto
  have "the (node_to_id (fold (dot_child node) ?cs ?s3) node) = i"
    using map_le_the[OF le n3] A(3) by simp
  with g A(7) have "graph (dot_visit rt h node s) = graph s @ emit rt h (node_to_id (dot_visit rt h node s)) node"
    by (simp add: r emit_def)
  moreover have "node_to_id s \<subseteq>\<^sub>m node_to_id (dot_visit rt h node s)"
    unfolding r using A(2) le by (auto intro: map_le_trans)
  moreover have "dom (node_to_id (dot_visit rt h node s)) = insert node (dom (node_to_id s) \<union> set (awaited_by (h ! node)))"
    unfolding r using d A(4) by auto
  ultimately show ?thesis using ok qq sn A(5,6) by (simp add: r)
qed

lemma emit_stable:
  assumes "m \<subseteq>\<^sub>m m'" and "n \<in> dom m" and "set (awaited_by (h ! n)) \<subseteq> dom m"
  shows "emit rt h m' n = emit rt h m n"
proof -
  have "the (m' n) = the (m n)" using map_le_the[OF assms(1,2)] .
  moreover have "the (m' c) = the (m c)" if "c \<in> set (awaited_by (h ! n))" for c
    using map_le_the[OF assms(1), of c] that assms(3) by blast
  ultimately show ?thesis by (simp add: emit_def)
qed

lemma dot_rule:
  assumes ret: "dot_loop rt h s = Some s'" and init: "I s"
    and step: "\<And>u. I u \<Longrightarrow> q u \<noteq> [] \<Longrightarrow> I (dot_step rt h u)"
  shows "I s' \<and> q s' = []"
proof -
  have "rt = rt \<and> h = h \<longrightarrow> I s \<longrightarrow> I s' \<and> q s' = []"
  proof (rule dot_loop.raw_induct
      [where P = "\<lambda>r g u y. r = rt \<and> g = h \<longrightarrow> I u \<longrightarrow> I y \<and> q y = []", OF _ ret])
    fix loop' r g u y
    assume IH: "\<And>r g u y. loop' r g u = Some y \<Longrightarrow> r = rt \<and> g = h \<longrightarrow> I u \<longrightarrow> I y \<and> q y = []"
      and body: "(if q u = [] then Some u else loop' r g (dot_step r g u)) = Some y"
    show "r = rt \<and> g = h \<longrightarrow> I u \<longrightarrow> I y \<and> q y = []"
    proof (cases "q u = []")
      case True
      with body show ?thesis by simp
    next
      case False
      with body have "loop' r g (dot_step r g u) = Some y" by simp
      from IH[OF this]
      have "r = rt \<and> g = h \<longrightarrow> I (dot_step r g u) \<longrightarrow> I y \<and> q y = []" .
      with step False show ?thesis by simp
    qed
  qed
  with init show ?thesis by simp
qed

lemma dot_step_inv:
  assumes cl: "closed_heap h" and hd: "head < length h"
    and inv: "dot_inv rt h head s" and ne: "q s \<noteq> []"
  shows "dot_inv rt h head (dot_step rt h s)"
    and "((length h - length (seen (dot_step rt h s)), length (q (dot_step rt h s))),
          (length h - length (seen s), length (q s))) \<in> less_than <*lex*> less_than"
proof -
  obtain node rest where qs: "q s = node # rest" using ne by (cases "q s") auto
  let ?s1 = "s\<lparr>q := rest\<rparr>"
  from inv have dist: "distinct (seen s)" and sr: "set (seen s) \<subseteq> reach h head"
    and qr: "set (q s) \<subseteq> reach h head" and hin: "head \<in> set (seen s) \<union> set (q s)"
    and ch: "\<forall>n \<in> set (seen s). set (awaited_by (h ! n)) \<subseteq> set (seen s) \<union> set (q s)"
    and ids: "ids_ok s"
    and dm: "\<forall>n \<in> set (seen s). n \<in> dom (node_to_id s) \<and> set (awaited_by (h ! n)) \<subseteq> dom (node_to_id s)"
    and gr: "graph s = concat (map (emit rt h (node_to_id s)) (rev (seen s)))"
    by (auto simp: dot_inv_def)
  from qr qs have nr: "node \<in> reach h head" by simp
  then have nl: "node < length h" by (rule reach_lt[OF cl hd])
  let ?t = "dot_step rt h s"
  have "distinct (seen ?t) \<and>
     set (seen ?t) \<subseteq> reach h head \<and> set (q ?t) \<subseteq> reach h head \<and>
     head \<in> set (seen ?t) \<union> set (q ?t) \<and>
     (\<forall>n \<in> set (seen ?t). set (awaited_by (h ! n)) \<subseteq> set (seen ?t) \<union> set (q ?t)) \<and>
     ids_ok ?t \<and>
     (\<forall>n \<in> set (seen ?t). n \<in> dom (node_to_id ?t) \<and> set (awaited_by (h ! n)) \<subseteq> dom (node_to_id ?t)) \<and>
     graph ?t = concat (map (emit rt h (node_to_id ?t)) (rev (seen ?t)))"
  proof (cases "node \<in> set (seen s)")
    case True
    then have st: "?t = ?s1" by (simp add: dot_step_def qs)
    have 1: "distinct (seen ?t)" using dist by (simp add: st)
    have 2: "set (seen ?t) \<subseteq> reach h head" using sr by (simp add: st)
    have 3: "set (q ?t) \<subseteq> reach h head" using qr qs by (simp add: st)
    have 4: "head \<in> set (seen ?t) \<union> set (q ?t)" using hin qs True by (auto simp: st)
    have 5: "\<forall>n \<in> set (seen ?t). set (awaited_by (h ! n)) \<subseteq> set (seen ?t) \<union> set (q ?t)"
      using ch qs True by (auto simp: st)
    have 6: "ids_ok ?t" using ids by (simp add: st ids_ok_def)
    have 7: "\<forall>n \<in> set (seen ?t). n \<in> dom (node_to_id ?t) \<and> set (awaited_by (h ! n)) \<subseteq> dom (node_to_id ?t)"
      using dm by (simp add: st)
    have 8: "graph ?t = concat (map (emit rt h (node_to_id ?t)) (rev (seen ?t)))"
      using gr by (simp add: st)
    from 1 2 3 4 5 6 7 8 show ?thesis by (intro conjI)
  next
    case False
    let ?s' = "dot_visit rt h node ?s1"
    have st: "?t = ?s'" using False by (simp add: dot_step_def qs)
    have ids1: "ids_ok ?s1" using ids by (simp add: ids_ok_def)
    from dot_visit_props[OF ids1, of rt h node]
    have ok: "ids_ok ?s'" and le: "node_to_id s \<subseteq>\<^sub>m node_to_id ?s'"
      and d: "dom (node_to_id ?s') = insert node (dom (node_to_id s) \<union> set (awaited_by (h ! node)))"
      and qq: "q ?s' = rev (remdups (awaited_by (h ! node))) @ rest"
      and sn: "seen ?s' = node # seen s"
      and g: "graph ?s' = graph s @ emit rt h (node_to_id ?s') node"
      by simp_all
    have 1: "distinct (seen ?t)" using dist False by (simp add: st sn)
    have 2: "set (seen ?t) \<subseteq> reach h head" using sr nr by (simp add: st sn)
    have "set (awaited_by (h ! node)) \<subseteq> reach h head"
      using reach_child[OF nr nl] by blast
    then have 3: "set (q ?t) \<subseteq> reach h head"
      using qr qs by (simp add: st qq)
    have 4: "head \<in> set (seen ?t) \<union> set (q ?t)" using hin qs by (auto simp: st sn qq)
    have 5: "\<forall>n \<in> set (seen ?t). set (awaited_by (h ! n)) \<subseteq> set (seen ?t) \<union> set (q ?t)"
      unfolding st sn qq using ch qs by auto
    have 6: "ids_ok ?t" using ok by (simp only: st)
    have 7: "\<forall>n \<in> set (seen ?t). n \<in> dom (node_to_id ?t) \<and> set (awaited_by (h ! n)) \<subseteq> dom (node_to_id ?t)"
      unfolding st sn d using dm by auto
    have E: "emit rt h (node_to_id ?s') n = emit rt h (node_to_id s) n" if "n \<in> set (seen s)" for n
      using emit_stable[OF le] dm that by blast
    have eq: "map (emit rt h (node_to_id s)) (rev (seen s)) = map (emit rt h (node_to_id ?s')) (rev (seen s))"
      by (rule map_cong) (simp_all add: E)
    have "graph ?s' = concat (map (emit rt h (node_to_id s)) (rev (seen s))) @ emit rt h (node_to_id ?s') node"
      using g gr by simp
    also have "\<dots> = concat (map (emit rt h (node_to_id ?s')) (rev (seen s))) @ emit rt h (node_to_id ?s') node"
      by (simp only: eq)
    also have "\<dots> = concat (map (emit rt h (node_to_id ?s')) (rev (node # seen s)))"
      by simp
    finally have 8: "graph ?t = concat (map (emit rt h (node_to_id ?t)) (rev (seen ?t)))"
      by (simp only: st sn)
    from 1 2 3 4 5 6 7 8 show ?thesis by (intro conjI)
  qed
  then show "dot_inv rt h head (dot_step rt h s)" unfolding dot_inv_def .
  show "((length h - length (seen (dot_step rt h s)), length (q (dot_step rt h s))),
          (length h - length (seen s), length (q s))) \<in> less_than <*lex*> less_than"
  proof (cases "node \<in> set (seen s)")
    case True
    then have st: "dot_step rt h s = ?s1" by (simp add: dot_step_def qs)
    show ?thesis unfolding st using qs by simp
  next
    case False
    have ids1: "ids_ok ?s1" using ids by (simp add: ids_ok_def)
    have "dot_step rt h s = dot_visit rt h node ?s1" using False by (simp add: dot_step_def qs)
    moreover from dot_visit_props[OF ids1, of rt h node]
    have "seen (dot_visit rt h node ?s1) = node # seen s" by simp
    ultimately have st: "seen (dot_step rt h s) = node # seen s" by simp
    have sub: "set (node # seen s) \<subseteq> {..<length h}"
      using sr nl reach_lt[OF cl hd] by auto
    have dn: "distinct (node # seen s)" using dist False by simp
    have "card (set (node # seen s)) \<le> card {..<length h}"
      using sub by (intro card_mono) simp_all
    then have "length (node # seen s) \<le> length h"
      using distinct_card[OF dn] by simp
    then show ?thesis unfolding st by auto
  qed
qed

lemma dot_terminates:
  assumes cl: "closed_heap h" and hd: "head < length h"
  shows "dot_inv rt h head s \<Longrightarrow> \<exists>s'. dot_loop rt h s = Some s'"
proof (induction s rule: wf_induct_rule
    [OF wf_inv_image[OF wf_lex_prod[OF wf_less_than wf_less_than],
        of "\<lambda>s. (length h - length (seen s), length (q s))"]])
  case (1 s)
  show ?case
  proof (cases "q s = []")
    case True
    then show ?thesis by (simp add: dot_loop_done)
  next
    case False
    note st = dot_step_inv[OF cl hd 1(2) False]
    have "(dot_step rt h s, s) \<in> inv_image (less_than <*lex*> less_than)
            (\<lambda>s. (length h - length (seen s), length (q s)))"
      using st(2) by (simp add: inv_image_def)
    from 1(1)[OF this st(1)] show ?thesis by (simp add: dot_loop_more[OF False])
  qed
qed

lemma dot_init_inv: "dot_inv rt h head (dot_init head)"
  by (simp add: dot_inv_def dot_init_def reach_def ids_ok_def)

lemma dot_loop_inv:
  assumes "closed_heap h" and "head < length h" and "dot_loop rt h (dot_init head) = Some s"
  shows "dot_inv rt h head s \<and> q s = []"
  by (rule dot_rule[OF assms(3), where I = "dot_inv rt h head"])
     (use dot_init_inv dot_step_inv(1)[OF assms(1,2)] in auto)

lemma seen_all_reachable:
  assumes inv: "dot_inv rt h head s" and e: "q s = []" and cl: "closed_heap h" and hd: "head < length h"
  shows "set (seen s) = reach h head"
proof
  show "set (seen s) \<subseteq> reach h head" using inv by (simp add: dot_inv_def)
  show "reach h head \<subseteq> set (seen s)"
  proof
    fix n assume "n \<in> reach h head"
    then have "(head, n) \<in> (edges h)\<^sup>*" by (simp add: reach_def)
    then show "n \<in> set (seen s)"
    proof (induction rule: rtrancl_induct)
      case base
      then show ?case using inv e by (simp add: dot_inv_def)
    next
      case (step y z)
      then have "z \<in> set (awaited_by (h ! y))" by (simp add: edges_def)
      with step.IH inv e show ?case by (auto simp: dot_inv_def)
    qed
  qed
qed

lemma line_src_emit: "l \<in> set (emit rt h m n) \<Longrightarrow> line_src l = the (m n)"
  by (auto simp: emit_def)

lemma distinct_emit:
  assumes "inj_on (\<lambda>n. the (m n)) (set (awaited_by (h ! n)))"
  shows "distinct (emit rt h m n)"
proof -
  have "inj_on (\<lambda>c. Edge (the (m n)) (the (m c))) (set (remdups (awaited_by (h ! n))))"
    using assms by (auto simp: inj_on_def)
  then show ?thesis by (auto simp: emit_def distinct_map)
qed

lemma distinct_concat_emit:
  assumes "distinct ns" and "inj_on (\<lambda>n. the (m n)) R" and "set ns \<subseteq> R"
    and "\<forall>n \<in> set ns. set (awaited_by (h ! n)) \<subseteq> R"
  shows "distinct (concat (map (emit rt h m) ns))"
  using assms(1,3,4)
proof (induction ns)
  case Nil
  then show ?case by simp
next
  case (Cons n ns)
  have "inj_on (\<lambda>n. the (m n)) (set (awaited_by (h ! n)))"
    using assms(2) Cons.prems(3) by (auto intro: inj_on_subset)
  then have 1: "distinct (emit rt h m n)" by (rule distinct_emit)
  have 2: "distinct (concat (map (emit rt h m) ns))" using Cons by simp
  have 3: "set (emit rt h m n) \<inter> set (concat (map (emit rt h m) ns)) = {}"
  proof (rule ccontr)
    assume "set (emit rt h m n) \<inter> set (concat (map (emit rt h m) ns)) \<noteq> {}"
    then obtain l n' where l: "l \<in> set (emit rt h m n)" and n': "n' \<in> set ns" and l': "l \<in> set (emit rt h m n')"
      by auto
    from line_src_emit[OF l] line_src_emit[OF l'] have "the (m n) = the (m n')" by simp
    moreover have "n \<in> R" "n' \<in> R" using Cons.prems(2) n' by auto
    ultimately have "n = n'" using assms(2) by (auto simp: inj_on_def)
    with n' Cons.prems(1) show False by simp
  qed
  from 1 2 3 show ?case by simp
qed

lemma ids_ok_inj: "ids_ok s \<Longrightarrow> A \<subseteq> dom (node_to_id s) \<Longrightarrow> inj_on (\<lambda>n. the (node_to_id s n)) A"
  by (fastforce simp: ids_ok_def inj_on_def dom_def)

lemma count_list_distinct: "distinct xs \<Longrightarrow> x \<in> set xs \<Longrightarrow> count_list xs x = 1"
  by (induction xs) auto

lemma closed_heap_iff:
  "closed_heap h \<longleftrightarrow> list_all (\<lambda>n. list_all (\<lambda>c. c < length h) (awaited_by n)) h"
proof -
  have "list_all (\<lambda>n. list_all (\<lambda>c. c < length h) (awaited_by n)) h
      \<longleftrightarrow> (\<forall>n < length h. list_all (\<lambda>c. c < length h) (awaited_by (h ! n)))"
    by (simp add: list_all_length)
  then show ?thesis by (simp add: closed_heap_def list_all_iff)
qed

lemma set_graph_emit:
  "set (concat (map (emit rt h m) ns)) =
     (\<lambda>n. Vertex (the (m n)) (escape_label (node_str rt (h ! n)))) ` set ns \<union>
     (\<lambda>(n, c). Edge (the (m n)) (the (m c))) ` {(n, c). n \<in> set ns \<and> c \<in> set (awaited_by (h ! n))}"
  by (auto simp: emit_def)

lemma graph_h_diamond:
  "map_option graph (dot_loop rt_idle h_diamond (dot_init 0)) =
     Some [Vertex 1 ''frame'', Edge 1 2, Edge 1 3,
           Vertex 3 ''future'', Edge 3 4,
           Vertex 4 ''lost'', Edge 4 1,
           Vertex 2 ''future'', Edge 2 4]"
  by (simp add: h_diamond_def rt_idle_def dot_defs eval_nat_numeral)

text \<open>
  C8, on the code. A node whose text is \<^verbatim>\<open>a"b\<close>, a newline, \<^verbatim>\<open>c\<close> is rendered with the
  newline replaced by a backslash and \<^verbatim>\<open>n\<close>, and with the double quote left as it is: the
  second \<^verbatim>\<open>replace\<close> of line 249 replaces a double quote by a double quote.
\<close>

theorem quote_not_escaped:
  "async_graph_to_dot rt [new_node (AsyncGraphNodeError quoted_text [])] 0 =
     Some (''digraph {'' @ [CHR 0x0A] @
           ''  n1 [label='' @ [CHR 0x22] @
              [CHR ''a'', CHR 0x22, CHR ''b'', CHR 0x5C, CHR ''n'', CHR ''c''] @
              [CHR 0x22] @ '' shape=box];'' @ [CHR 0x0A] @
           ''}'' @ [CHR 0x0A])"
  by (simp add: async_graph_to_dot_def dot_defs new_node_def quoted_text_def)

text \<open>
  The lines appended to \<^verbatim>\<open>graph\<close>, before they are put into text: the loop ends, the
  identifiers differ from node to node, and the list of lines has no repetition and holds
  the vertex line of each reachable node and the edge line of each edge leaving one.
\<close>

lemma dot_lines_reachable_once:
  assumes "head < length h" and "closed_heap h"
  shows "\<exists>s. dot_loop rt h (dot_init head) = Some s \<and>
           async_graph_to_dot rt h head =
             Some (''digraph {'' @ [CHR 0x0A] @ concat (map render (graph s)) @ ''}'' @ [CHR 0x0A]) \<and>
           inj_on (\<lambda>n. the (node_to_id s n)) (reach h head) \<and>
           distinct (graph s) \<and>
           set (graph s) =
             (\<lambda>n. Vertex (the (node_to_id s n)) (escape_label (node_str rt (h ! n)))) ` reach h head \<union>
             (\<lambda>(n, c). Edge (the (node_to_id s n)) (the (node_to_id s c))) `
               {(n, c). n \<in> reach h head \<and> c \<in> set (awaited_by (h ! n))} \<and>
           (\<forall>n \<in> reach h head.
              count_list (graph s) (Vertex (the (node_to_id s n)) (escape_label (node_str rt (h ! n)))) = 1 \<and>
              (\<forall>c \<in> set (awaited_by (h ! n)).
                 count_list (graph s) (Edge (the (node_to_id s n)) (the (node_to_id s c))) = 1))"
proof -
  from dot_terminates[OF assms(2,1) dot_init_inv]
  obtain s where s: "dot_loop rt h (dot_init head) = Some s" by blast
  from dot_loop_inv[OF assms(2,1) s] have inv: "dot_inv rt h head s" and e: "q s = []" by auto
  have sr: "set (seen s) = reach h head" by (rule seen_all_reachable[OF inv e assms(2,1)])
  from inv have dist: "distinct (seen s)" and ids: "ids_ok s"
    and dm: "\<forall>n \<in> set (seen s). n \<in> dom (node_to_id s) \<and> set (awaited_by (h ! n)) \<subseteq> dom (node_to_id s)"
    and gr: "graph s = concat (map (emit rt h (node_to_id s)) (rev (seen s)))"
    by (auto simp: dot_inv_def)
  have "reach h head \<subseteq> dom (node_to_id s)" using dm sr by auto
  then have inj: "inj_on (\<lambda>n. the (node_to_id s n)) (reach h head)" by (rule ids_ok_inj[OF ids])
  have ch: "\<forall>n \<in> set (rev (seen s)). set (awaited_by (h ! n)) \<subseteq> reach h head"
    using sr reach_child reach_lt[OF assms(2,1)] by auto
  have dg: "distinct (graph s)"
    unfolding gr by (rule distinct_concat_emit[OF _ inj _ ch]) (use dist sr in auto)
  have sg: "set (graph s) =
             (\<lambda>n. Vertex (the (node_to_id s n)) (escape_label (node_str rt (h ! n)))) ` reach h head \<union>
             (\<lambda>(n, c). Edge (the (node_to_id s n)) (the (node_to_id s c))) `
               {(n, c). n \<in> reach h head \<and> c \<in> set (awaited_by (h ! n))}"
    unfolding gr set_graph_emit using sr by simp
  have cnt: "\<forall>n \<in> reach h head.
              count_list (graph s) (Vertex (the (node_to_id s n)) (escape_label (node_str rt (h ! n)))) = 1 \<and>
              (\<forall>c \<in> set (awaited_by (h ! n)).
                 count_list (graph s) (Edge (the (node_to_id s n)) (the (node_to_id s c))) = 1)"
  proof (intro ballI conjI)
    fix n assume n: "n \<in> reach h head"
    then have "Vertex (the (node_to_id s n)) (escape_label (node_str rt (h ! n))) \<in> set (graph s)"
      unfolding sg by blast
    then show "count_list (graph s) (Vertex (the (node_to_id s n)) (escape_label (node_str rt (h ! n)))) = 1"
      by (rule count_list_distinct[OF dg])
    fix c assume "c \<in> set (awaited_by (h ! n))"
    with n have "(n, c) \<in> {(n, c). n \<in> reach h head \<and> c \<in> set (awaited_by (h ! n))}" by simp
    then have "Edge (the (node_to_id s n)) (the (node_to_id s c)) \<in> set (graph s)"
      unfolding sg by (intro UnI2) (rule image_eqI[where x = "(n, c)"], simp_all)
    then show "count_list (graph s) (Edge (the (node_to_id s n)) (the (node_to_id s c))) = 1"
      by (rule count_list_distinct[OF dg])
  qed
  have "async_graph_to_dot rt h head =
             Some (''digraph {'' @ [CHR 0x0A] @ concat (map render (graph s)) @ ''}'' @ [CHR 0x0A])"
    by (simp add: async_graph_to_dot_def s)
  with s inj dg sg cnt show ?thesis by (intro exI[of _ s] conjI)
qed

lemma digit_value_digit: "d < 10 \<Longrightarrow> digit_value (''0123456789'' ! d) = d"
proof -
  assume "d < 10"
  then have "d \<in> {0, 1, 2, 3, 4, 5, 6, 7, 8, 9}" by auto
  then show ?thesis by (auto simp: digit_value_def)
qed

lemma digit_in_digits: "d < 10 \<Longrightarrow> ''0123456789'' ! d \<in> set ''0123456789''"
  by (rule nth_mem) simp

lemma nat_of_str_str_nat: "nat_of_str (str_nat n) = n"
proof (induction n rule: str_nat.induct)
  case (1 n)
  show ?case
  proof (cases "n < 10")
    case True
    then show ?thesis
      by (subst str_nat.simps) (simp add: nat_of_str_def digit_value_digit)
  next
    case False
    with 1 have IH: "nat_of_str (str_nat (n div 10)) = n div 10" by simp
    have "nat_of_str (str_nat n) = 10 * nat_of_str (str_nat (n div 10)) + digit_value (''0123456789'' ! (n mod 10))"
      using False by (subst str_nat.simps) (simp add: nat_of_str_def)
    also have "\<dots> = 10 * (n div 10) + n mod 10"
    proof -
      have "n mod 10 < 10" by simp
      from digit_value_digit[OF this] IH show ?thesis by (simp)
    qed
    finally show ?thesis by simp
  qed
qed

lemma inj_str_nat: "str_nat i = str_nat j \<Longrightarrow> i = j"
  by (metis nat_of_str_str_nat)

lemma set_str_nat: "set (str_nat n) \<subseteq> set ''0123456789''"
proof (induction n rule: str_nat.induct)
  case (1 n)
  show ?case
  proof (cases "n < 10")
    case True
    then show ?thesis using digit_in_digits[of n]
      by (subst str_nat.simps) simp
  next
    case False
    with 1 have "set (str_nat (n div 10)) \<subseteq> set ''0123456789''" by simp
    moreover have "''0123456789'' ! (n mod 10) \<in> set ''0123456789''"
      by (rule digit_in_digits) simp
    ultimately show ?thesis using False
      by (subst str_nat.simps) simp
  qed
qed

lemma str_nat_no_blank: "CHR '' '' \<notin> set (str_nat n)"
  using set_str_nat[of n] by auto

lemma str_nat_no_semicolon: "CHR '';'' \<notin> set (str_nat n)"
  using set_str_nat[of n] by auto

lemma str_nat_no_newline: "CHR 0x0A \<notin> set (str_nat n)"
  using set_str_nat[of n] by auto

lemma render_line_text: "render l = line_text l @ [CHR 0x0A]"
  by (cases l) (simp_all add: vertex_line_def edge_line_def)

lemma replace_char_absent: "c \<notin> set new \<Longrightarrow> c \<notin> set (replace_char c new s)"
  by (induction s) auto

lemma escape_label_no_newline: "CHR 0x0A \<notin> set (escape_label s)"
  by (simp add: escape_label_def escape_label_quote replace_char_absent)

lemma vertex_line_no_newline: "CHR 0x0A \<notin> set label \<Longrightarrow> CHR 0x0A \<notin> set (vertex_line i label)"
  by (simp add: vertex_line_def str_nat_no_newline)

lemma edge_line_no_newline: "CHR 0x0A \<notin> set (edge_line i j)"
  by (simp add: edge_line_def str_nat_no_newline)

lemma split_at_first:
  "x \<notin> set xs \<Longrightarrow> x \<notin> set xs' \<Longrightarrow> xs @ x # ys = xs' @ x # ys' \<Longrightarrow> xs = xs' \<and> ys = ys'"
proof (induction xs arbitrary: xs')
  case Nil
  then show ?case by (cases xs') auto
next
  case (Cons a xs)
  then show ?case by (cases xs') auto
qed

lemma vertex_line_inj:
  assumes "vertex_line i l = vertex_line j m"
  shows "i = j \<and> l = m"
proof -
  let ?R = "\<lambda>t. ''[label='' @ [CHR 0x22] @ t @ [CHR 0x22] @ '' shape=box];''"
  have v: "vertex_line k t = ''  n'' @ (str_nat k @ CHR '' '' # ?R t)" for k t
    by (simp add: vertex_line_def)
  from assms have "str_nat i @ CHR '' '' # ?R l = str_nat j @ CHR '' '' # ?R m"
    unfolding v by (rule same_append_eq[THEN iffD1])
  then have "str_nat i = str_nat j \<and> ?R l = ?R m"
    by (rule split_at_first[OF str_nat_no_blank str_nat_no_blank])
  then have "i = j" and "?R l = ?R m" using inj_str_nat by blast+
  from this(2) have "l @ ([CHR 0x22] @ '' shape=box];'') = m @ ([CHR 0x22] @ '' shape=box];'')"
    by simp
  then have "l = m" by (rule append_same_eq[THEN iffD1])
  with \<open>i = j\<close> show ?thesis by simp
qed

lemma edge_line_inj:
  assumes "edge_line i k = edge_line j m"
  shows "i = j \<and> k = m"
proof -
  let ?R = "\<lambda>t. ''-> n'' @ (str_nat t @ '';'')"
  have e: "edge_line a b = ''n'' @ (str_nat a @ CHR '' '' # ?R b)" for a b
    by (simp add: edge_line_def)
  from assms have "str_nat i @ CHR '' '' # ?R k = str_nat j @ CHR '' '' # ?R m"
    unfolding e by (rule same_append_eq[THEN iffD1])
  then have "str_nat i = str_nat j \<and> ?R k = ?R m"
    by (rule split_at_first[OF str_nat_no_blank str_nat_no_blank])
  then have "i = j" and "?R k = ?R m" using inj_str_nat by blast+
  from this(2) have "str_nat k @ '';'' = str_nat m @ '';''"
    by (rule same_append_eq[THEN iffD1])
  then have "str_nat k = str_nat m" by (rule append_same_eq[THEN iffD1])
  with \<open>i = j\<close> show ?thesis using inj_str_nat by blast
qed

lemma vertex_line_not_edge_line: "vertex_line i l \<noteq> edge_line j k"
  by (simp add: vertex_line_def edge_line_def)

lemma inj_line_text: "inj line_text"
proof (rule injI)
  fix x y assume eq: "line_text x = line_text y"
  show "x = y"
  proof (cases x)
    case (Vertex i l)
    show ?thesis
    proof (cases y)
      case (Vertex j m)
      with eq \<open>x = Vertex i l\<close> have "vertex_line i l = vertex_line j m" by simp
      from vertex_line_inj[OF this] show ?thesis using Vertex \<open>x = Vertex i l\<close> by simp
    next
      case (Edge j m)
      with eq \<open>x = Vertex i l\<close> have "vertex_line i l = edge_line j m" by simp
      with vertex_line_not_edge_line show ?thesis by blast
    qed
  next
    case (Edge i k)
    show ?thesis
    proof (cases y)
      case (Vertex j m)
      with eq \<open>x = Edge i k\<close> have "vertex_line j m = edge_line i k" by simp
      with vertex_line_not_edge_line show ?thesis by blast
    next
      case (Edge j m)
      with eq \<open>x = Edge i k\<close> have "edge_line i k = edge_line j m" by simp
      from edge_line_inj[OF this] show ?thesis using Edge \<open>x = Edge i k\<close> by simp
    qed
  qed
qed

lemma text_h_diamond:
  "async_graph_to_dot rt_idle h_diamond 0 =
     Some (concat
       [''digraph {'', [CHR 0x0A],
        ''  n1 [label='', [CHR 0x22], ''frame'', [CHR 0x22], '' shape=box];'', [CHR 0x0A],
        ''n1 -> n2;'', [CHR 0x0A],
        ''n1 -> n3;'', [CHR 0x0A],
        ''  n3 [label='', [CHR 0x22], ''future'', [CHR 0x22], '' shape=box];'', [CHR 0x0A],
        ''n3 -> n4;'', [CHR 0x0A],
        ''  n4 [label='', [CHR 0x22], ''lost'', [CHR 0x22], '' shape=box];'', [CHR 0x0A],
        ''n4 -> n1;'', [CHR 0x0A],
        ''  n2 [label='', [CHR 0x22], ''future'', [CHR 0x22], '' shape=box];'', [CHR 0x0A],
        ''n2 -> n4;'', [CHR 0x0A],
        ''}'', [CHR 0x0A]])"
proof -
  from graph_h_diamond obtain s where "dot_loop rt_idle h_diamond (dot_init 0) = Some s"
    and "graph s = [Vertex 1 ''frame'', Edge 1 2, Edge 1 3,
           Vertex 3 ''future'', Edge 3 4, Vertex 4 ''lost'', Edge 4 1, Vertex 2 ''future'', Edge 2 4]"
    by auto
  then show ?thesis by (simp add: async_graph_to_dot_def str_nat.simps)
qed

text \<open>
  C9. For a graph in which every \<^verbatim>\<open>awaited_by\<close> reference points to a node of the graph,
  and any node \<open>head\<close> of it, with or without diamonds and cycles: the loop ends and the
  text returned is the opening line, the lines of \<open>body\<close> each ended by a newline, and the
  closing line. No line of \<open>body\<close> holds a newline and no line occurs twice. The lines of
  \<open>body\<close> are exactly the vertex declaration of every node reachable from \<open>head\<close> and
  the edge line of every \<^verbatim>\<open>awaited_by\<close> edge that leaves a reachable node, each of them
  occurring once, where the identifiers differ from node to node, two reachable nodes
  never share a vertex line and two such edges never share an edge line.
\<close>

theorem dot_text_emits_reachable_once:
  assumes "head < length h" and "closed_heap h"
  shows "\<exists>s body.
     dot_loop rt h (dot_init head) = Some s \<and>
     body = map line_text (graph s) \<and>
     async_graph_to_dot rt h head =
       Some (''digraph {'' @ [CHR 0x0A] @ concat (map (\<lambda>b. b @ [CHR 0x0A]) body) @ ''}'' @ [CHR 0x0A]) \<and>
     (\<forall>b \<in> set body. CHR 0x0A \<notin> set b) \<and>
     inj_on (\<lambda>n. the (node_to_id s n)) (reach h head) \<and>
     distinct body \<and>
     set body =
       (\<lambda>n. vertex_line (the (node_to_id s n)) (escape_label (node_str rt (h ! n)))) ` reach h head \<union>
       (\<lambda>(n, c). edge_line (the (node_to_id s n)) (the (node_to_id s c))) `
         {(n, c). n \<in> reach h head \<and> c \<in> set (awaited_by (h ! n))} \<and>
     (\<forall>n \<in> reach h head.
        count_list body (vertex_line (the (node_to_id s n)) (escape_label (node_str rt (h ! n)))) = 1 \<and>
        (\<forall>c \<in> set (awaited_by (h ! n)).
           count_list body (edge_line (the (node_to_id s n)) (the (node_to_id s c))) = 1)) \<and>
     (\<forall>n \<in> reach h head. \<forall>n' \<in> reach h head.
        vertex_line (the (node_to_id s n)) (escape_label (node_str rt (h ! n))) =
        vertex_line (the (node_to_id s n')) (escape_label (node_str rt (h ! n'))) \<longrightarrow> n = n') \<and>
     (\<forall>n \<in> reach h head. \<forall>c \<in> set (awaited_by (h ! n)).
      \<forall>n' \<in> reach h head. \<forall>c' \<in> set (awaited_by (h ! n')).
        edge_line (the (node_to_id s n)) (the (node_to_id s c)) =
        edge_line (the (node_to_id s n')) (the (node_to_id s c')) \<longrightarrow> n = n' \<and> c = c')"
proof -
  let ?R = "reach h head"
  let ?E = "{(n, c). n \<in> ?R \<and> c \<in> set (awaited_by (h ! n))}"
  from dot_lines_reachable_once[OF assms, of rt]
  obtain s where s: "dot_loop rt h (dot_init head) = Some s"
    and dtext: "async_graph_to_dot rt h head =
             Some (''digraph {'' @ [CHR 0x0A] @ concat (map render (graph s)) @ ''}'' @ [CHR 0x0A])"
    and inj: "inj_on (\<lambda>n. the (node_to_id s n)) ?R"
    and dg: "distinct (graph s)"
    and sg: "set (graph s) =
             (\<lambda>n. Vertex (the (node_to_id s n)) (escape_label (node_str rt (h ! n)))) ` ?R \<union>
             (\<lambda>(n, c). Edge (the (node_to_id s n)) (the (node_to_id s c))) ` ?E"
    by blast
  let ?id = "\<lambda>n. the (node_to_id s n)"
  let ?V = "\<lambda>n. vertex_line (?id n) (escape_label (node_str rt (h ! n)))"
  let ?Ed = "\<lambda>(n, c). edge_line (?id n) (?id c)"
  define body where "body = map line_text (graph s)"
  have child: "c \<in> ?R" if "n \<in> ?R" and "c \<in> set (awaited_by (h ! n))" for n c
    using reach_child[OF that(1) reach_lt[OF assms(2,1) that(1)] that(2)] .
  have "map render (graph s) = map (\<lambda>b. b @ [CHR 0x0A]) body"
    by (simp add: body_def render_line_text)
  with dtext have 1: "async_graph_to_dot rt h head =
       Some (''digraph {'' @ [CHR 0x0A] @ concat (map (\<lambda>b. b @ [CHR 0x0A]) body) @ ''}'' @ [CHR 0x0A])"
    by simp
  have sb: "set body = ?V ` ?R \<union> ?Ed ` ?E"
  proof -
    have "set body = line_text ` set (graph s)" by (simp add: body_def)
    also have "\<dots> = line_text ` ((\<lambda>n. Vertex (?id n) (escape_label (node_str rt (h ! n)))) ` ?R)
        \<union> line_text ` ((\<lambda>(n, c). Edge (?id n) (?id c)) ` ?E)"
      unfolding sg by (rule image_Un)
    also have "line_text ` ((\<lambda>n. Vertex (?id n) (escape_label (node_str rt (h ! n)))) ` ?R) = ?V ` ?R"
      by (simp add: image_image)
    also have "line_text ` ((\<lambda>(n, c). Edge (?id n) (?id c)) ` ?E) = ?Ed ` ?E"
      by (auto simp: image_image intro!: image_cong)
    finally show ?thesis .
  qed
  have 2: "\<forall>b \<in> set body. CHR 0x0A \<notin> set b"
    unfolding sb
    by (auto simp: vertex_line_no_newline[OF escape_label_no_newline] edge_line_no_newline)
  have 3: "distinct body"
    unfolding body_def using dg inj_line_text by (simp add: distinct_map inj_on_def inj_def)
  have 4: "\<forall>n \<in> ?R. count_list body (?V n) = 1 \<and>
        (\<forall>c \<in> set (awaited_by (h ! n)). count_list body (edge_line (?id n) (?id c)) = 1)"
  proof (intro ballI conjI)
    fix n assume n: "n \<in> ?R"
    then have "?V n \<in> set body" unfolding sb by blast
    then show "count_list body (?V n) = 1" by (rule count_list_distinct[OF 3])
    fix c assume "c \<in> set (awaited_by (h ! n))"
    with n have "(n, c) \<in> ?E" by simp
    then have "?Ed (n, c) \<in> set body" unfolding sb by (intro UnI2 imageI)
    then show "count_list body (edge_line (?id n) (?id c)) = 1"
      using count_list_distinct[OF 3] by simp
  qed
  have 5: "\<forall>n \<in> ?R. \<forall>n' \<in> ?R. ?V n = ?V n' \<longrightarrow> n = n'"
  proof (intro ballI impI)
    fix n n' assume n: "n \<in> ?R" "n' \<in> ?R" and eq: "?V n = ?V n'"
    from vertex_line_inj[OF eq] have "?id n = ?id n'" by simp
    with inj n show "n = n'" by (simp add: inj_on_def)
  qed
  have 6: "\<forall>n \<in> ?R. \<forall>c \<in> set (awaited_by (h ! n)). \<forall>n' \<in> ?R. \<forall>c' \<in> set (awaited_by (h ! n')).
        edge_line (?id n) (?id c) = edge_line (?id n') (?id c') \<longrightarrow> n = n' \<and> c = c'"
  proof (intro ballI impI)
    fix n c n' c'
    assume n: "n \<in> ?R" "n' \<in> ?R" and c: "c \<in> set (awaited_by (h ! n))" "c' \<in> set (awaited_by (h ! n'))"
      and eq: "edge_line (?id n) (?id c) = edge_line (?id n') (?id c')"
    from edge_line_inj[OF eq] have "?id n = ?id n'" and "?id c = ?id c'" by simp_all
    moreover have "c \<in> ?R" "c' \<in> ?R" using child n c by blast+
    ultimately show "n = n' \<and> c = c'" using inj n by (simp add: inj_on_def)
  qed
  from s body_def 1 2 inj 3 sb 4 5 6 show ?thesis
    by (intro exI[of _ s] exI[of _ body] conjI)
qed

theorem dot_text_emits_reachable_once_witness:
  "\<exists>body. async_graph_to_dot rt_idle h_diamond 0 =
       Some (''digraph {'' @ [CHR 0x0A] @ concat (map (\<lambda>b. b @ [CHR 0x0A]) body) @ ''}'' @ [CHR 0x0A]) \<and>
     body = [vertex_line 1 ''frame'', edge_line 1 2, edge_line 1 3,
             vertex_line 3 ''future'', edge_line 3 4,
             vertex_line 4 ''lost'', edge_line 4 1,
             vertex_line 2 ''future'', edge_line 2 4] \<and>
     distinct body"
proof -
  have "0 < length h_diamond" and "closed_heap h_diamond"
    by (simp_all add: closed_heap_iff h_diamond_def)
  from dot_text_emits_reachable_once[OF this, of rt_idle]
  obtain s body where "dot_loop rt_idle h_diamond (dot_init 0) = Some s"
    and "body = map line_text (graph s)"
    and "async_graph_to_dot rt_idle h_diamond 0 =
       Some (''digraph {'' @ [CHR 0x0A] @ concat (map (\<lambda>b. b @ [CHR 0x0A]) body) @ ''}'' @ [CHR 0x0A])"
    and "distinct body"
    by blast
  moreover from this(1) graph_h_diamond have "graph s = [Vertex 1 ''frame'', Edge 1 2, Edge 1 3,
           Vertex 3 ''future'', Edge 3 4, Vertex 4 ''lost'', Edge 4 1, Vertex 2 ''future'', Edge 2 4]"
    by simp
  ultimately show ?thesis by (intro exI[of _ body]) simp
qed


end
